theory Spec2Isabelle
  imports Main "HOL-Library.Word" "HOL-Library.Monad_Syntax"
begin

section \<open>C strings and heap blocks\<close>

text \<open>
  A C \<open>char\<close> is an Isabelle \<^typ>\<open>char\<close> (one byte).  A heap block, or a local array, is the
  list of its bytes; its length is the allocated size.  An access outside the block is
  undefined behaviour in C and the value \<open>None\<close> here, as is every other way the
  program can crash (a null or dangling pointer, a failed \<open>assert\<close>).

  A \<open>const char *\<close> argument supplied by the caller is modelled by a \<^typ>\<open>string\<close> \<open>t\<close>
  whose terminator is implicit: the C string it denotes is \<open>c_str t\<close>, the bytes before
  the first NUL.
\<close>

abbreviation NUL :: char where
  "NUL \<equiv> CHR 0x00"

definition c_str :: "string \<Rightarrow> string" where
  "c_str t = takeWhile (\<lambda>c. c \<noteq> NUL) t"

definition strlen :: "string \<Rightarrow> nat" where
  "strlen t = length (c_str t)"

text \<open>\<open>strdup\<close> returns a fresh block of \<open>strlen t + 1\<close> bytes.\<close>

definition strdup :: "string \<Rightarrow> string" where
  "strdup t = c_str t @ [NUL]"

text \<open>The C string that starts at offset \<open>i\<close> of block \<open>b\<close>; reading past the block is a fault.\<close>

definition block_str :: "string \<Rightarrow> nat \<Rightarrow> string option" where
  "block_str b i = (if NUL \<in> set (drop i b) then Some (c_str (drop i b)) else None)"

text \<open>\<open>memmove(&b[dst], &b[src], n)\<close> inside one block.\<close>

definition memmove :: "string \<Rightarrow> nat \<Rightarrow> nat \<Rightarrow> nat \<Rightarrow> string option" where
  "memmove b dst src n =
     (if dst + n \<le> length b \<and> src + n \<le> length b
      then Some (take dst b @ take n (drop src b) @ drop (dst + n) b)
      else None)"

text \<open>\<open>strncpy(&b[dst], text, n)\<close>: exactly \<open>n\<close> bytes are written, NUL-padded when the
  source is shorter, not terminated when it is not.\<close>

definition strncpy :: "string \<Rightarrow> nat \<Rightarrow> string \<Rightarrow> nat \<Rightarrow> string option" where
  "strncpy b dst text n =
     (if dst + n \<le> length b
      then Some (take dst b @ take n (c_str text) @ replicate (n - strlen text) NUL
                 @ drop (dst + n) b)
      else None)"

text \<open>\<open>strcpy(b, text)\<close>: the string and its terminator.\<close>

definition strcpy :: "string \<Rightarrow> string \<Rightarrow> string option" where
  "strcpy b text =
     (if strlen text + 1 \<le> length b
      then Some (strdup text @ drop (strlen text + 1) b)
      else None)"

text \<open>\<open>b[i] = c\<close>.\<close>

definition store :: "string \<Rightarrow> nat \<Rightarrow> char \<Rightarrow> string option" where
  "store b i c = (if i < length b then Some (b[i := c]) else None)"

section \<open>The session\<close>

text \<open>
  \<open>line\<close> is a pointer that is null, or the address of the current \<open>buffer\<close> block, or the
  address of a string of the caller (\<open>tinyrl_set_line\<close>).  \<open>Line_buffer\<close> while \<open>buffer\<close>
  is \<open>None\<close> is the pointer \<open>tinyrl_readline\<close> leaves behind when it frees the buffer.
\<close>

datatype line_ptr = Line_null | Line_buffer | Line_text string

text \<open>A keymap node: per byte, a handler (with its context) and a child node, either of
  them possibly null.\<close>

datatype 'h keymap =
  Keymap (handler: "char \<Rightarrow> 'h option") (submap: "char \<Rightarrow> 'h keymap option")

text \<open>What one \<open>getc\<close> on the input stream returns.\<close>

datatype getc_result = Got char | At_eof | Read_error

text \<open>
  \<open>unsigned\<close> is 32 bits wide and wraps around; \<open>size_t\<close> values are sizes of objects in
  memory, taken as natural numbers (64 bits, never near the wrap-around).
  \<open>unat\<close> is the conversion from \<open>unsigned\<close> to \<open>size_t\<close>, \<open>of_nat\<close> the truncating one
  back.  The fields \<open>end\<close> and \<open>done\<close> of the source are \<open>rl_end\<close> and \<open>rl_done\<close>.

  Four fields stand for the environment: \<open>istream\<close> lists what the successive reads of
  the input stream will return (end of file once exhausted), \<open>heap\<close> lists the outcomes
  of the successive allocations (\<open>None\<close> a failure, \<open>Some c\<close> a success whose
  uninitialised bytes read as \<open>c\<close>; success once exhausted), \<open>stack_junk\<close> is what the
  bytes of an uninitialised local array read as, and \<open>ws_col\<close> is the answer of the
  window-size \<open>ioctl\<close> (\<open>None\<close> when it fails).
\<close>

record 'h tinyrl =
  istream :: "getc_result list"
  istream_eof :: bool
  ostream :: string
  line :: line_ptr
  max_line_length :: "32 word"
  prompt :: "string option"
  buffer :: "string option"
  buffer_size :: nat
  rl_done :: bool
  point :: "32 word"
  rl_end :: "32 word"
  kill_string :: "string option"
  keymap :: "'h keymap"
  echo_char :: char
  echo_enabled :: bool
  isatty :: bool
  last_buffer :: "string option"
  last_end :: nat
  last_row :: nat
  last_point_row :: nat
  heap :: "char option list"
  stack_junk :: char
  ws_col :: "nat option"

definition alloc :: "'h tinyrl \<Rightarrow> char option \<times> 'h tinyrl" where
  "alloc s = (case heap s of [] \<Rightarrow> (Some NUL, s) | r # rs \<Rightarrow> (r, s\<lparr>heap := rs\<rparr>))"

text \<open>\<open>realloc(old, n)\<close>: on success a block of \<open>n\<close> bytes that starts with the old contents.\<close>

definition realloc :: "'h tinyrl \<Rightarrow> string option \<Rightarrow> nat \<Rightarrow> string option \<times> 'h tinyrl" where
  "realloc s old n =
     (case alloc s of
        (None, s') \<Rightarrow> (None, s')
      | (Some c, s') \<Rightarrow>
          (Some (take n ((case old of None \<Rightarrow> [] | Some b \<Rightarrow> b) @ replicate n c)), s'))"

definition tinyrl_printf :: "'h tinyrl \<Rightarrow> string \<Rightarrow> 'h tinyrl" where
  "tinyrl_printf s out = s\<lparr>ostream := ostream s @ out\<rparr>"

definition tinyrl_crlf :: "'h tinyrl \<Rightarrow> 'h tinyrl" where
  "tinyrl_crlf s = tinyrl_printf s [CHR 0x0A]"

definition tinyrl_ding :: "'h tinyrl \<Rightarrow> 'h tinyrl" where
  "tinyrl_ding s = tinyrl_printf s [CHR 0x07]"

section \<open>The edit buffer\<close>

text \<open>The pointer comparison \<open>this->line == this->buffer\<close>.\<close>

definition line_is_buffer :: "'h tinyrl \<Rightarrow> bool" where
  "line_is_buffer s =
     (case line s of
        Line_null \<Rightarrow> buffer s = None
      | Line_buffer \<Rightarrow> buffer s \<noteq> None
      | Line_text t \<Rightarrow> False)"

text \<open>The C string \<open>line\<close> points to.\<close>

definition line_str :: "'h tinyrl \<Rightarrow> string option" where
  "line_str s =
     (case line s of
        Line_null \<Rightarrow> None
      | Line_buffer \<Rightarrow> (case buffer s of None \<Rightarrow> None | Some b \<Rightarrow> block_str b 0)
      | Line_text t \<Rightarrow> Some (c_str t))"

definition changed_line :: "'h tinyrl \<Rightarrow> 'h tinyrl option" where
  "changed_line s =
     (if line_is_buffer s then Some s
      else case line_str s of
        None \<Rightarrow> None
      | Some t \<Rightarrow>
          (case alloc s of
             (None, s') \<Rightarrow> None
           | (Some c, s') \<Rightarrow>
               Some (s'\<lparr>line := Line_buffer, buffer := Some (strdup t),
                        buffer_size := strlen t\<rparr>)))"

definition tinyrl_extend_line_buffer :: "'h tinyrl \<Rightarrow> 32 word \<Rightarrow> bool \<times> 'h tinyrl" where
  "tinyrl_extend_line_buffer s len =
     (if buffer_size s < unat len then
        (if max_line_length s = 0 then
           (let new_len = (if unat len < buffer_size s + 10 then buffer_size s + 10
                           else unat len)
            in case realloc s (buffer s) (new_len + 1) of
                 (None, s') \<Rightarrow> (False, tinyrl_ding s')
               | (Some nb, s') \<Rightarrow>
                   (True, s'\<lparr>buffer_size := new_len, line := Line_buffer,
                             buffer := Some nb\<rparr>))
         else if unat len < unat (max_line_length s) then
           (case realloc s (buffer s) (unat (max_line_length s)) of
              (None, s') \<Rightarrow> (False, tinyrl_ding s')
            | (Some nb, s') \<Rightarrow>
                (True, s'\<lparr>buffer_size := unat (max_line_length s - 1), line := Line_buffer,
                          buffer := Some nb\<rparr>))
         else (False, tinyrl_ding s))
      else (True, s))"

text \<open>The second half of \<open>tinyrl_insert_text_len\<close>, once the buffer is large enough: the
  tail is moved, the text copied and the indexes updated.\<close>

definition insert_copy :: "'h tinyrl \<Rightarrow> string \<Rightarrow> 32 word \<Rightarrow> (bool \<times> 'h tinyrl) option" where
  "insert_copy s text delta =
     do {
       b \<leftarrow> buffer s;
       b1 \<leftarrow> (if point s < rl_end s
              then memmove b (unat (point s + delta)) (unat (point s))
                     (unat (rl_end s - point s + 1))
              else store b (unat (rl_end s + delta)) NUL);
       b2 \<leftarrow> strncpy b1 (unat (point s)) text (unat delta);
       Some (True, s\<lparr>buffer := Some b2, point := point s + delta,
                     rl_end := rl_end s + delta\<rparr>)
     }"

definition tinyrl_insert_text_len ::
  "'h tinyrl \<Rightarrow> string \<Rightarrow> 32 word \<Rightarrow> (bool \<times> 'h tinyrl) option" where
  "tinyrl_insert_text_len s text delta =
     (case changed_line s of
        None \<Rightarrow> None
      | Some s1 \<Rightarrow>
          if buffer_size s1 < unat (delta + rl_end s1) then
            (case tinyrl_extend_line_buffer s1 (rl_end s1 + delta) of
               (False, s2) \<Rightarrow> Some (False, s2)
             | (True, s2) \<Rightarrow> insert_copy s2 text delta)
          else insert_copy s1 text delta)"

text \<open>The \<open>size_t\<close> result of \<open>strlen\<close> is truncated to the \<open>unsigned\<close> parameter.\<close>

definition tinyrl_insert_text :: "'h tinyrl \<Rightarrow> string \<Rightarrow> (bool \<times> 'h tinyrl) option" where
  "tinyrl_insert_text s text = tinyrl_insert_text_len s text (of_nat (strlen text))"

definition tinyrl_delete_text :: "'h tinyrl \<Rightarrow> 32 word \<Rightarrow> 32 word \<Rightarrow> 'h tinyrl option" where
  "tinyrl_delete_text s start end_arg =
     (if end_arg = start then Some s
      else do {
        s1 \<leftarrow> changed_line s;
        b \<leftarrow> buffer s1;
        let delta = end_arg - start;
        b1 \<leftarrow> memmove b (unat start) (unat (start + delta)) (unat (rl_end s1 + 1 - end_arg));
        let s2 = s1\<lparr>buffer := Some b1, rl_end := rl_end s1 - delta\<rparr>;
        Some (if end_arg < point s2 then s2\<lparr>point := point s2 - delta\<rparr>
              else if start < point s2 then s2\<lparr>point := start\<rparr>
              else s2)
      })"

definition tinyrl_set_line :: "'h tinyrl \<Rightarrow> string option \<Rightarrow> 'h tinyrl option" where
  "tinyrl_set_line s text =
     (let s1 = s\<lparr>line := (case text of
                          Some t \<Rightarrow> Line_text t
                        | None \<Rightarrow> (case buffer s of None \<Rightarrow> Line_null | Some b \<Rightarrow> Line_buffer))\<rparr>
      in case line_str s1 of
           None \<Rightarrow> None
         | Some l \<Rightarrow> Some (s1\<lparr>point := of_nat (length l), rl_end := of_nat (length l)\<rparr>))"

definition tinyrl_get_line :: "'h tinyrl \<Rightarrow> line_ptr" where
  "tinyrl_get_line s = line s"

definition tinyrl_get_point :: "'h tinyrl \<Rightarrow> 32 word" where
  "tinyrl_get_point s = point s"

definition tinyrl_done :: "'h tinyrl \<Rightarrow> 'h tinyrl" where
  "tinyrl_done s = s\<lparr>rl_done := True\<rparr>"

definition tinyrl_enable_echo :: "'h tinyrl \<Rightarrow> 'h tinyrl" where
  "tinyrl_enable_echo s = s\<lparr>echo_enabled := True\<rparr>"

definition tinyrl_disable_echo :: "'h tinyrl \<Rightarrow> char \<Rightarrow> 'h tinyrl" where
  "tinyrl_disable_echo s c = s\<lparr>echo_enabled := False, echo_char := c\<rparr>"

definition tinyrl_limit_line_length :: "'h tinyrl \<Rightarrow> 32 word \<Rightarrow> 'h tinyrl" where
  "tinyrl_limit_line_length s n = s\<lparr>max_line_length := n\<rparr>"

section \<open>UTF-8 helpers\<close>

text \<open>
  The functions of \<open>utf8.h\<close> are not part of the sources at hand; they are parameters of the
  model.  Each takes the memory its pointer argument addresses as a list of bytes;
  \<open>utf8_grapheme_width\<close> returns the width together with the value it stores through its
  \<open>next\<close> argument.
\<close>

record utf8 =
  utf8_char_len :: "char \<Rightarrow> nat"
  utf8_char_decode :: "string \<Rightarrow> nat \<Rightarrow> nat"
  utf8_char_prev :: "string \<Rightarrow> nat \<Rightarrow> nat \<Rightarrow> nat"
  utf8_grapheme_prev :: "string \<Rightarrow> nat \<Rightarrow> nat \<Rightarrow> nat"
  utf8_grapheme_next :: "string \<Rightarrow> nat \<Rightarrow> nat \<Rightarrow> nat"
  utf8_grapheme_width :: "string \<Rightarrow> nat \<Rightarrow> nat \<Rightarrow> nat \<times> nat"

text \<open>The memory \<open>line\<close> points to, as far as it is known: the buffer block, or the
  caller's string with its terminator.\<close>

definition line_mem :: "'h tinyrl \<Rightarrow> string option" where
  "line_mem s =
     (case line s of
        Line_null \<Rightarrow> None
      | Line_buffer \<Rightarrow> buffer s
      | Line_text t \<Rightarrow> Some (strdup t))"

section \<open>Terminal output\<close>

function dec_digits :: "nat \<Rightarrow> string" where
  "dec_digits n =
     (if n < 10 then [char_of (48 + n)]
      else dec_digits (n div 10) @ [char_of (48 + n mod 10)])"
  by pat_completeness auto
termination
  by (relation "measure id") auto

text \<open>\<open>%d\<close> applied to an \<open>unsigned\<close> argument prints it as a signed \<open>int\<close>.\<close>

definition printf_d :: "32 word \<Rightarrow> string" where
  "printf_d w =
     (if 0 \<le> sint w then dec_digits (nat (sint w))
      else CHR ''-'' # dec_digits (nat (- sint w)))"

abbreviation ESC :: char where
  "ESC \<equiv> CHR 0x1B"

definition tinyrl_vt100_clear_screen :: "'h tinyrl \<Rightarrow> 'h tinyrl" where
  "tinyrl_vt100_clear_screen s = tinyrl_printf s (ESC # ''[2J'')"

definition tinyrl_vt100_erase_line_end :: "'h tinyrl \<Rightarrow> 'h tinyrl" where
  "tinyrl_vt100_erase_line_end s = tinyrl_printf s (ESC # ''[0K'')"

definition tinyrl_vt100_erase_line :: "'h tinyrl \<Rightarrow> 'h tinyrl" where
  "tinyrl_vt100_erase_line s = tinyrl_printf s (ESC # ''[2K'')"

definition tinyrl_vt100_cursor_up :: "'h tinyrl \<Rightarrow> 32 word \<Rightarrow> 'h tinyrl" where
  "tinyrl_vt100_cursor_up s count = tinyrl_printf s (ESC # ''['' @ printf_d count @ ''A'')"

definition tinyrl_vt100_cursor_down :: "'h tinyrl \<Rightarrow> 32 word \<Rightarrow> 'h tinyrl" where
  "tinyrl_vt100_cursor_down s count = tinyrl_printf s (ESC # ''['' @ printf_d count @ ''B'')"

definition tinyrl_vt100_cursor_forward :: "'h tinyrl \<Rightarrow> 32 word \<Rightarrow> 'h tinyrl" where
  "tinyrl_vt100_cursor_forward s count =
     tinyrl_printf s (ESC # ''['' @ printf_d count @ ''C'')"

definition tinyrl_vt100_cursor_home :: "'h tinyrl \<Rightarrow> 'h tinyrl" where
  "tinyrl_vt100_cursor_home s = tinyrl_printf s (ESC # ''[H'')"

definition tinyrl__get_width :: "'h tinyrl \<Rightarrow> nat" where
  "tinyrl__get_width s =
     (case ws_col s of None \<Rightarrow> 80 | Some c \<Rightarrow> if c \<noteq> 0 then c else 80)"


section \<open>Redisplay\<close>

text \<open>
  The loops of the redisplay step through the text with the UTF-8 helpers and end only if
  those advance; they are partial functions, \<open>None\<close> when the loop does not end (or the
  program faults).
\<close>

text \<open>The loop of \<open>tinyrl_internal_print\<close> that counts the graphemes of the line when an
  echo character replaces them.\<close>

partial_function (option) echo_count ::
  "utf8 \<Rightarrow> string \<Rightarrow> nat \<Rightarrow> nat \<Rightarrow> nat \<Rightarrow> nat \<Rightarrow> nat \<Rightarrow> (nat \<times> nat) option" where
  "echo_count U ln e p i pt en =
     (let pt' = (if i = p then en else pt)
      in if e \<le> i then Some (pt', en)
         else echo_count U ln e p (utf8_grapheme_next U ln e i) pt' (en + 1))"

declare echo_count.simps [code]

text \<open>The result is the display buffer (null when its allocation fails), the point and the
  end in it, and the session with the allocation consumed.\<close>

definition tinyrl_internal_print ::
  "utf8 \<Rightarrow> 'h tinyrl \<Rightarrow> (string option \<times> nat \<times> nat \<times> 'h tinyrl) option" where
  "tinyrl_internal_print U s =
     (if echo_enabled s then
        (case line_str s of
           None \<Rightarrow> None
         | Some l \<Rightarrow>
             (case alloc s of
                (None, s') \<Rightarrow> Some (None, unat (point s), unat (rl_end s), s')
              | (Some c, s') \<Rightarrow> Some (Some (strdup l), unat (point s), unat (rl_end s), s')))
      else if echo_char s \<noteq> NUL then
        (case line_mem s of
           None \<Rightarrow> None
         | Some m \<Rightarrow>
             (case echo_count U m (unat (rl_end s)) (unat (point s)) 0 0 0 of
                None \<Rightarrow> None
              | Some (pt, en) \<Rightarrow>
                  (case alloc s of
                     (None, s') \<Rightarrow> Some (None, pt, en, s')
                   | (Some c, s') \<Rightarrow>
                       Some (Some (replicate en (echo_char s) @ [NUL]), pt, en, s'))))
      else
        (case alloc s of
           (None, s') \<Rightarrow> Some (None, 0, 0, s')
         | (Some c, s') \<Rightarrow> Some (Some (strdup []), 0, 0, s')))"

partial_function (option) string_wrap_loop ::
  "utf8 \<Rightarrow> string \<Rightarrow> nat \<Rightarrow> nat \<Rightarrow> nat \<Rightarrow> nat \<Rightarrow> nat \<Rightarrow> (nat \<times> nat) option" where
  "string_wrap_loop U str len row_width pt row col =
     (if pt < len then
        (case utf8_grapheme_width U str len pt of
           (width, next) \<Rightarrow>
             if row_width < col + width
             then string_wrap_loop U str len row_width next (row + 1) width
             else string_wrap_loop U str len row_width next row (col + width))
      else Some (row, col))"

declare string_wrap_loop.simps [code]

definition tinyrl_string_wrap ::
  "utf8 \<Rightarrow> string \<Rightarrow> nat \<Rightarrow> nat \<Rightarrow> nat \<Rightarrow> nat \<Rightarrow> (nat \<times> nat) option" where
  "tinyrl_string_wrap U str len row_width row col =
     string_wrap_loop U str len row_width 0 row col"

text \<open>\<open>memcmp(a + k, b + k, n) == 0\<close>; the \<open>n\<close> bytes must lie inside both blocks.\<close>

definition memcmp_eq :: "string \<Rightarrow> string \<Rightarrow> nat \<Rightarrow> nat \<Rightarrow> bool option" where
  "memcmp_eq a b k n =
     (if k + n \<le> length a \<and> k + n \<le> length b
      then Some (take n (drop k a) = take n (drop k b))
      else None)"

text \<open>The loop of \<open>tinyrl_redisplay\<close> that finds how much of the last display to keep.
  \<open>next_len - keep_len\<close> is a \<open>size_t\<close> difference: a \<open>next_len\<close> below \<open>keep_len\<close> makes it
  huge and the comparison leaves the blocks.\<close>

partial_function (option) keep_loop ::
  "utf8 \<Rightarrow> string \<Rightarrow> nat \<Rightarrow> string \<Rightarrow> nat \<Rightarrow> nat \<Rightarrow> nat option" where
  "keep_loop U buf en last_buf last_en keep_len =
     (if en \<le> keep_len then Some keep_len
      else let next_len = utf8_grapheme_next U buf en keep_len
           in if last_en < next_len then Some keep_len
              else if next_len < keep_len then None
              else case memcmp_eq buf last_buf keep_len (next_len - keep_len) of
                     None \<Rightarrow> None
                   | Some same \<Rightarrow>
                       if same then keep_loop U buf en last_buf last_en next_len
                       else Some keep_len)"

declare keep_loop.simps [code]

text \<open>The loop that erases the rows that are not kept.\<close>

fun erase_rows :: "nat \<Rightarrow> 'h tinyrl \<Rightarrow> 'h tinyrl" where
  "erase_rows 0 s = s"
| "erase_rows (Suc n) s = erase_rows n (tinyrl_vt100_cursor_up (tinyrl_vt100_erase_line s) 1)"

text \<open>The output of the branch of \<open>tinyrl_redisplay\<close> taken when a previous display
  exists: the cursor goes to the start of the last displayed row, the rows that are not
  kept are erased, and the kept row is erased from \<open>keep_col\<close> on.\<close>

definition erase_output :: "'h tinyrl \<Rightarrow> nat \<Rightarrow> nat \<Rightarrow> 'h tinyrl" where
  "erase_output s keep_row keep_col =
     (let s1 = tinyrl_printf s [CHR 0x0D];
          s2 = (if last_point_row s1 < last_row s1
                then tinyrl_vt100_cursor_down s1 (of_nat (last_row s1 - last_point_row s1))
                else if last_row s1 < last_point_row s1
                then tinyrl_vt100_cursor_up s1 (of_nat (last_point_row s1 - last_row s1))
                else s1);
          s3 = erase_rows (last_row s2 - keep_row) s2;
          s4 = (if keep_col \<noteq> 0 then tinyrl_vt100_cursor_forward s3 (of_nat keep_col) else s3)
      in tinyrl_vt100_erase_line_end s4)"

text \<open>That branch: it returns \<open>keep_len\<close> and the session with the erasing sequences
  written.\<close>

definition redisplay_erase ::
  "utf8 \<Rightarrow> 'h tinyrl \<Rightarrow> nat \<Rightarrow> nat \<Rightarrow> nat \<Rightarrow> string \<Rightarrow> nat \<Rightarrow> string
     \<Rightarrow> (nat \<times> 'h tinyrl) option" where
  "redisplay_erase U s width prompt_row prompt_col buf en last_buf =
     do {
       keep_len0 \<leftarrow> keep_loop U buf en last_buf (last_end s) 0;
       (keep_row0, keep_col0) \<leftarrow> tinyrl_string_wrap U buf keep_len0 width prompt_row prompt_col;
       (keep_len, keep_row, keep_col) \<leftarrow>
          (if 0 < keep_len0 \<and> keep_col0 = width then
             (let keep_len1 = utf8_grapheme_prev U buf en keep_len0
              in case tinyrl_string_wrap U buf keep_len1 width prompt_row prompt_col of
                   None \<Rightarrow> None
                 | Some (r, c) \<Rightarrow> Some (keep_len1, r, c))
           else Some (keep_len0, keep_row0, keep_col0));
       Some (keep_len, erase_output s keep_row keep_col)
     }"

text \<open>The end of \<open>tinyrl_redisplay\<close>: the cursor is moved from the end of the text to the
  point.\<close>

definition place_cursor :: "'h tinyrl \<Rightarrow> nat \<Rightarrow> nat \<Rightarrow> nat \<Rightarrow> nat \<Rightarrow> nat \<Rightarrow> 'h tinyrl" where
  "place_cursor s row point_row point_col pt en =
     (let s3 = (if row < point_row then tinyrl_printf s [CHR 0x0A] else s)
      in if pt < en then
           (let s5 = (if point_row < row
                      then tinyrl_vt100_cursor_up s3 (of_nat (row - point_row))
                      else s3);
                s6 = tinyrl_printf s5 [CHR 0x0D]
            in if point_col \<noteq> 0
               then tinyrl_vt100_cursor_forward s6 (of_nat point_col)
               else s6)
         else s3)"

definition tinyrl_redisplay :: "utf8 \<Rightarrow> 'h tinyrl \<Rightarrow> 'h tinyrl option" where
  "tinyrl_redisplay U s =
     do {
       let width = tinyrl__get_width s;
       pr \<leftarrow> prompt s;
       (prompt_row, prompt_col) \<leftarrow> tinyrl_string_wrap U (strdup pr) (strlen pr) width 0 0;
       (bufp, pt, en, s0) \<leftarrow> tinyrl_internal_print U s;
       case bufp of
         None \<Rightarrow> Some s0
       | Some buf \<Rightarrow> do {
           (keep_len, s1) \<leftarrow>
              (case last_buffer s0 of
                 Some last_buf \<Rightarrow>
                   redisplay_erase U s0 width prompt_row prompt_col buf en last_buf
               | None \<Rightarrow> Some (0, tinyrl_printf s0 (c_str pr)));
           tail \<leftarrow> block_str buf keep_len;
           let s2 = tinyrl_printf s1 tail;
           (row, col) \<leftarrow> tinyrl_string_wrap U buf en width prompt_row prompt_col;
           (point_row0, point_col0) \<leftarrow> tinyrl_string_wrap U buf pt width prompt_row prompt_col;
           let (point_row, point_col) =
                 (if point_col0 = width
                     \<or> (pt < en \<and> width < point_col0 + fst (utf8_grapheme_width U buf en pt))
                  then (point_row0 + 1, 0)
                  else (point_row0, point_col0));
           let s4 = place_cursor s2 row point_row point_col pt en;
           Some (s4\<lparr>last_buffer := Some buf, last_end := en, last_row := row,
                    last_point_row := point_row\<rparr>)
         }
     }"

definition tinyrl_reset_line_state :: "utf8 \<Rightarrow> 'h tinyrl \<Rightarrow> 'h tinyrl option" where
  "tinyrl_reset_line_state U s = tinyrl_redisplay U (s\<lparr>last_buffer := None\<rparr>)"

definition tinyrl_replace_line :: "utf8 \<Rightarrow> 'h tinyrl \<Rightarrow> string \<Rightarrow> 'h tinyrl option" where
  "tinyrl_replace_line U s text =
     (let new_len = strlen text
      in case tinyrl_extend_line_buffer s (of_nat new_len) of
           (True, s1) \<Rightarrow> do {
             b \<leftarrow> buffer s1;
             b1 \<leftarrow> strcpy b text;
             tinyrl_redisplay U (s1\<lparr>buffer := Some b1, point := of_nat new_len,
                                    rl_end := of_nat new_len\<rparr>)
           }
         | (False, s1) \<Rightarrow> tinyrl_redisplay U s1)"

section \<open>Reading keys\<close>

definition getc :: "'h tinyrl \<Rightarrow> getc_result \<times> 'h tinyrl" where
  "getc s =
     (case istream s of
        [] \<Rightarrow> (At_eof, s\<lparr>istream_eof := True\<rparr>)
      | r # rs \<Rightarrow> (r, s\<lparr>istream := rs, istream_eof := (istream_eof s \<or> r = At_eof)\<rparr>))"

text \<open>The loop of \<open>tinyrl_getchar\<close> that reads the bytes after the first one into \<open>key\<close>.
  The result says whether every read succeeded, and gives the array, the index reached and
  the session.\<close>

function getchar_rest ::
  "'h tinyrl \<Rightarrow> string \<Rightarrow> nat \<Rightarrow> nat \<Rightarrow> (bool \<times> string \<times> nat \<times> 'h tinyrl) option" where
  "getchar_rest s key i key_len =
     (if i < key_len then
        (case getc s of
           (Got c, s') \<Rightarrow>
             (case store key i c of
                None \<Rightarrow> None
              | Some key' \<Rightarrow> getchar_rest s' key' (i + 1) key_len)
         | (At_eof, s') \<Rightarrow> Some (False, key, i, s')
         | (Read_error, s') \<Rightarrow> Some (False, key, i, s'))
      else Some (True, key, i, s))"
  by pat_completeness auto
termination
  by (relation "measure (\<lambda>(s, key, i, key_len). key_len - i)") auto

text \<open>\<open>tinyrl_getchar\<close> returns the length of the key, or -1, and writes into the array
  \<open>key\<close> of the caller.\<close>

definition tinyrl_getchar ::
  "utf8 \<Rightarrow> 'h tinyrl \<Rightarrow> string \<Rightarrow> (int \<times> string \<times> 'h tinyrl) option" where
  "tinyrl_getchar U s key =
     (case getc s of
        (Got c, s1) \<Rightarrow>
          (let key_len = utf8_char_len U c
           in if key_len = 0 then Some (- 1, key, s1)
              else do {
                key1 \<leftarrow> store key 0 c;
                (ok, key2, i, s2) \<leftarrow> getchar_rest s1 key1 1 key_len;
                if \<not> ok then Some (- 1, key2, s2)
                else do {
                  key3 \<leftarrow> store key2 i NUL;
                  if utf8_char_decode U key3 key_len \<noteq> key_len then Some (- 1, key3, s2)
                  else Some (int key_len, key3, s2)
                }
              })
      | (At_eof, s1) \<Rightarrow> Some (- 1, key, s1)
      | (Read_error, s1) \<Rightarrow> Some (- 1, key, s1))"

text \<open>The \<open>O_NONBLOCK\<close> flag set around the read changes what the read returns, which
  \<open>istream\<close> already lists; nothing else differs.\<close>

definition tinyrl_getchar_nonblock ::
  "utf8 \<Rightarrow> 'h tinyrl \<Rightarrow> string \<Rightarrow> (int \<times> string \<times> 'h tinyrl) option" where
  "tinyrl_getchar_nonblock U s key = tinyrl_getchar U s key"

section \<open>The built-in key handlers\<close>

text \<open>A handler takes the session (its context) and the key array, and returns its result
  and the session.\<close>

definition tinyrl_key_default :: "'h tinyrl \<Rightarrow> string \<Rightarrow> (bool \<times> 'h tinyrl) option" where
  "tinyrl_key_default s key = tinyrl_insert_text s key"

definition tinyrl_key_interrupt :: "'h tinyrl \<Rightarrow> string \<Rightarrow> (bool \<times> 'h tinyrl) option" where
  "tinyrl_key_interrupt s key =
     do {
       s1 \<leftarrow> tinyrl_delete_text s 0 (rl_end s);
       Some (True, s1\<lparr>rl_done := True\<rparr>)
     }"

definition tinyrl_key_start_of_line :: "'h tinyrl \<Rightarrow> string \<Rightarrow> (bool \<times> 'h tinyrl) option" where
  "tinyrl_key_start_of_line s key = Some (True, s\<lparr>point := 0\<rparr>)"

definition tinyrl_key_end_of_line :: "'h tinyrl \<Rightarrow> string \<Rightarrow> (bool \<times> 'h tinyrl) option" where
  "tinyrl_key_end_of_line s key = Some (True, s\<lparr>point := rl_end s\<rparr>)"

text \<open>\<open>kill_string\<close> holds the characters of the copy \<open>strdup\<close> made, or is null when the
  copy could not be allocated.\<close>

definition tinyrl_key_kill :: "'h tinyrl \<Rightarrow> string \<Rightarrow> (bool \<times> 'h tinyrl) option" where
  "tinyrl_key_kill s key =
     do {
       b \<leftarrow> buffer s;
       t \<leftarrow> block_str b (unat (point s));
       let (r, s1) = alloc s;
       let s2 = s1\<lparr>kill_string := (case r of None \<Rightarrow> None | Some c \<Rightarrow> Some t)\<rparr>;
       s3 \<leftarrow> tinyrl_delete_text s2 (point s2) (rl_end s2);
       Some (True, s3)
     }"

definition tinyrl_key_yank :: "'h tinyrl \<Rightarrow> string \<Rightarrow> (bool \<times> 'h tinyrl) option" where
  "tinyrl_key_yank s key =
     (case kill_string s of
        Some k \<Rightarrow> tinyrl_insert_text s k
      | None \<Rightarrow> Some (False, s))"

definition tinyrl_key_crlf :: "'h tinyrl \<Rightarrow> string \<Rightarrow> (bool \<times> 'h tinyrl) option" where
  "tinyrl_key_crlf s key = Some (True, (tinyrl_crlf s)\<lparr>rl_done := True\<rparr>)"

definition tinyrl_key_left :: "utf8 \<Rightarrow> 'h tinyrl \<Rightarrow> string \<Rightarrow> (bool \<times> 'h tinyrl) option" where
  "tinyrl_key_left U s key =
     (if 0 < point s then
        do {
          m \<leftarrow> line_mem s;
          Some (True, s\<lparr>point :=
                  of_nat (utf8_grapheme_prev U m (unat (rl_end s)) (unat (point s)))\<rparr>)
        }
      else Some (False, s))"

definition tinyrl_key_right :: "utf8 \<Rightarrow> 'h tinyrl \<Rightarrow> string \<Rightarrow> (bool \<times> 'h tinyrl) option" where
  "tinyrl_key_right U s key =
     (if point s < rl_end s then
        do {
          m \<leftarrow> line_mem s;
          Some (True, s\<lparr>point :=
                  of_nat (utf8_grapheme_next U m (unat (rl_end s)) (unat (point s)))\<rparr>)
        }
      else Some (False, s))"

definition tinyrl_key_backspace ::
  "utf8 \<Rightarrow> 'h tinyrl \<Rightarrow> string \<Rightarrow> (bool \<times> 'h tinyrl) option" where
  "tinyrl_key_backspace U s key =
     (if point s \<noteq> 0 then
        do {
          m \<leftarrow> line_mem s;
          let end_arg = point s;
          let s1 = s\<lparr>point := of_nat (utf8_char_prev U m (unat (rl_end s)) (unat (point s)))\<rparr>;
          s2 \<leftarrow> tinyrl_delete_text s1 (point s1) end_arg;
          Some (True, s2)
        }
      else Some (False, s))"

definition tinyrl_key_delete :: "utf8 \<Rightarrow> 'h tinyrl \<Rightarrow> string \<Rightarrow> (bool \<times> 'h tinyrl) option" where
  "tinyrl_key_delete U s key =
     (if point s < rl_end s then
        do {
          m \<leftarrow> line_mem s;
          let end_arg = utf8_grapheme_next U m (unat (rl_end s)) (unat (point s));
          s1 \<leftarrow> tinyrl_delete_text s (point s) (of_nat end_arg);
          Some (True, s1)
        }
      else Some (False, s))"

definition tinyrl_key_clear_screen ::
  "utf8 \<Rightarrow> 'h tinyrl \<Rightarrow> string \<Rightarrow> (bool \<times> 'h tinyrl) option" where
  "tinyrl_key_clear_screen U s key =
     do {
       s1 \<leftarrow> tinyrl_reset_line_state U (tinyrl_vt100_cursor_home (tinyrl_vt100_clear_screen s));
       Some (True, s1)
     }"

definition tinyrl_key_erase_line :: "'h tinyrl \<Rightarrow> string \<Rightarrow> (bool \<times> 'h tinyrl) option" where
  "tinyrl_key_erase_line s key =
     do {
       s1 \<leftarrow> tinyrl_delete_text s 0 (point s);
       Some (True, s1\<lparr>point := 0\<rparr>)
     }"

text \<open>The built-in handlers as values a keymap can hold; their context is the session.\<close>

datatype key_func =
    Key_default | Key_interrupt | Key_start_of_line | Key_end_of_line | Key_kill | Key_yank
  | Key_crlf | Key_left | Key_right | Key_backspace | Key_delete | Key_clear_screen
  | Key_erase_line

fun call_key_func ::
  "utf8 \<Rightarrow> key_func \<Rightarrow> 'h tinyrl \<Rightarrow> string \<Rightarrow> (bool \<times> 'h tinyrl) option" where
  "call_key_func U Key_default = tinyrl_key_default"
| "call_key_func U Key_interrupt = tinyrl_key_interrupt"
| "call_key_func U Key_start_of_line = tinyrl_key_start_of_line"
| "call_key_func U Key_end_of_line = tinyrl_key_end_of_line"
| "call_key_func U Key_kill = tinyrl_key_kill"
| "call_key_func U Key_yank = tinyrl_key_yank"
| "call_key_func U Key_crlf = tinyrl_key_crlf"
| "call_key_func U Key_left = tinyrl_key_left U"
| "call_key_func U Key_right = tinyrl_key_right U"
| "call_key_func U Key_backspace = tinyrl_key_backspace U"
| "call_key_func U Key_delete = tinyrl_key_delete U"
| "call_key_func U Key_clear_screen = tinyrl_key_clear_screen U"
| "call_key_func U Key_erase_line = tinyrl_key_erase_line"

section \<open>The keymap\<close>

definition tinyrl_keymap_new :: "'h keymap" where
  "tinyrl_keymap_new = Keymap (\<lambda>c. None) (\<lambda>c. None)"

definition tinyrl_bind_key :: "'h tinyrl \<Rightarrow> char \<Rightarrow> 'h option \<Rightarrow> 'h tinyrl" where
  "tinyrl_bind_key s key h =
     s\<lparr>keymap := Keymap ((handler (keymap s))(key := h)) (submap (keymap s))\<rparr>"

text \<open>The walk of \<open>tinyrl_bind_keyseq\<close>: \<open>key\<close> is the byte in hand, the list the bytes
  of the sequence after it.\<close>

fun bind_path :: "'h keymap \<Rightarrow> char \<Rightarrow> string \<Rightarrow> 'h option \<Rightarrow> 'h keymap" where
  "bind_path km key [] h = Keymap ((handler km)(key := h)) (submap km)"
| "bind_path km key (c # cs) h =
     Keymap (handler km)
       ((submap km)(key \<mapsto>
          bind_path (case submap km key of None \<Rightarrow> tinyrl_keymap_new | Some m \<Rightarrow> m) c cs h))"

definition tinyrl_bind_keyseq :: "'h tinyrl \<Rightarrow> string \<Rightarrow> 'h option \<Rightarrow> 'h tinyrl" where
  "tinyrl_bind_keyseq s seq h =
     (case c_str seq of
        [] \<Rightarrow> s
      | key # rest \<Rightarrow> s\<lparr>keymap := bind_path (keymap s) key rest h\<rparr>)"

datatype tinyrl_key =
    TINYRL_KEY_UP | TINYRL_KEY_DOWN | TINYRL_KEY_LEFT | TINYRL_KEY_RIGHT
  | TINYRL_KEY_HOME | TINYRL_KEY_END | TINYRL_KEY_INSERT | TINYRL_KEY_DELETE

fun tinyrl_bind_special :: "'h tinyrl \<Rightarrow> tinyrl_key \<Rightarrow> 'h option \<Rightarrow> 'h tinyrl" where
  "tinyrl_bind_special s TINYRL_KEY_UP h = tinyrl_bind_keyseq s (ESC # ''[A'') h"
| "tinyrl_bind_special s TINYRL_KEY_DOWN h = tinyrl_bind_keyseq s (ESC # ''[B'') h"
| "tinyrl_bind_special s TINYRL_KEY_LEFT h = tinyrl_bind_keyseq s (ESC # ''[D'') h"
| "tinyrl_bind_special s TINYRL_KEY_RIGHT h = tinyrl_bind_keyseq s (ESC # ''[C'') h"
| "tinyrl_bind_special s TINYRL_KEY_HOME h = tinyrl_bind_keyseq s (ESC # ''OH'') h"
| "tinyrl_bind_special s TINYRL_KEY_END h = tinyrl_bind_keyseq s (ESC # ''OF'') h"
| "tinyrl_bind_special s TINYRL_KEY_INSERT h = tinyrl_bind_keyseq s (ESC # ''[2~'') h"
| "tinyrl_bind_special s TINYRL_KEY_DELETE h = tinyrl_bind_keyseq s (ESC # ''[3~'') h"

section \<open>Dispatch\<close>

text \<open>
  The loop of \<open>tinyrl_handle_key\<close>: \<open>km\<close> is the node reached, \<open>best\<close> the handler recorded
  so far.  It returns the handler to call, the key array as the reads left it, and the
  session.
\<close>

lemma getchar_rest_istream:
  "getchar_rest s key i key_len = Some (ok, key', j, s')
     \<Longrightarrow> length (istream s') \<le> length (istream s)"
proof (induction s key i key_len rule: getchar_rest.induct)
  case (1 s key i key_len)
  show ?case
  proof (cases "i < key_len")
    case False
    with "1.prems" show ?thesis by simp
  next
    case True
    show ?thesis
    proof (cases "istream s")
      case Nil
      with True "1.prems" show ?thesis by (auto simp: getc_def)
    next
      case (Cons r rs)
      show ?thesis
      proof (cases r)
        case (Got c)
        with Cons True "1.prems" obtain k where
          k: "store key i c = Some k"
             "getchar_rest (s\<lparr>istream := rs, istream_eof := istream_eof s\<rparr>) k (i + 1) key_len
                = Some (ok, key', j, s')"
          by (auto simp: getc_def split: option.splits)
        have "getc s = (Got c, s\<lparr>istream := rs, istream_eof := istream_eof s\<rparr>)"
          using Cons Got by (simp add: getc_def)
        from "1.IH" [OF True this [symmetric] refl k(1) k(2)] Cons show ?thesis by simp
      next
        case At_eof
        with Cons True "1.prems" show ?thesis by (auto simp: getc_def)
      next
        case Read_error
        with Cons True "1.prems" show ?thesis by (auto simp: getc_def)
      qed
    qed
  qed
qed

lemma getchar_istream:
  assumes "tinyrl_getchar U s key = Some (key_len, key', s')" "0 < key_len"
  shows "length (istream s') < length (istream s)"
proof (cases "istream s")
  case Nil
  with assms show ?thesis by (auto simp: tinyrl_getchar_def getc_def)
next
  case (Cons r rs)
  show ?thesis
  proof (cases r)
    case (Got c)
    let ?s1 = "s\<lparr>istream := rs, istream_eof := istream_eof s\<rparr>"
    have g: "getc s = (Got c, ?s1)" using Cons Got by (simp add: getc_def)
    from assms g obtain k1 ok k2 i where
      "getchar_rest ?s1 k1 1 (utf8_char_len U c) = Some (ok, k2, i, s')"
      by (auto simp: tinyrl_getchar_def Let_def split: if_splits option.splits Option.bind_splits)
    from getchar_rest_istream [OF this] Cons show ?thesis by simp
  next
    case At_eof
    with Cons assms show ?thesis by (auto simp: tinyrl_getchar_def getc_def)
  next
    case Read_error
    with Cons assms show ?thesis by (auto simp: tinyrl_getchar_def getc_def)
  qed
qed

function key_walk ::
  "utf8 \<Rightarrow> 'h tinyrl \<Rightarrow> string \<Rightarrow> int \<Rightarrow> nat \<Rightarrow> 'h keymap \<Rightarrow> 'h option
     \<Rightarrow> ('h option \<times> string \<times> 'h tinyrl) option" where
  "key_walk U s key key_len i km best =
     (if length key \<le> i then None
      else let c = key ! i;
               best' = (case handler km c of Some h \<Rightarrow> Some h | None \<Rightarrow> best)
           in case submap km c of
                None \<Rightarrow> Some (best', key, s)
              | Some km' \<Rightarrow>
                  if key_len \<le> int (i + 1) then
                    (case tinyrl_getchar_nonblock U s key of
                       None \<Rightarrow> None
                     | Some (key_len', key', s') \<Rightarrow>
                         if key_len' \<le> 0 then Some (best', key', s')
                         else key_walk U s' key' key_len' 0 km' best')
                  else key_walk U s key key_len (i + 1) km' best')"
  by pat_completeness auto
termination
  by (relation "measures [\<lambda>(U, s, key, key_len, i, km, best). length (istream s),
                          \<lambda>(U, s, key, key_len, i, km, best). nat (key_len - int i)]")
     (auto simp: tinyrl_getchar_nonblock_def dest: getchar_istream)

definition tinyrl_handle_key ::
  "('h \<Rightarrow> 'h tinyrl \<Rightarrow> string \<Rightarrow> (bool \<times> 'h tinyrl) option) \<Rightarrow> utf8 \<Rightarrow> 'h tinyrl \<Rightarrow> string \<Rightarrow> int
     \<Rightarrow> (string \<times> 'h tinyrl) option" where
  "tinyrl_handle_key call U s key key_len =
     (case key_walk U s key key_len 0 (keymap s) None of
        None \<Rightarrow> None
      | Some (None, key', s') \<Rightarrow> Some (key', tinyrl_ding s')
      | Some (Some h, key', s') \<Rightarrow>
          (case call h s' key' of
             None \<Rightarrow> None
           | Some (ok, s'') \<Rightarrow> Some (key', if ok then s'' else tinyrl_ding s'')))"

section \<open>The read loops\<close>

text \<open>\<open>isspace\<close> in the C locale.\<close>

definition isspace :: "char \<Rightarrow> bool" where
  "isspace c = (c \<in> set [CHR 0x20, CHR 0x09, CHR 0x0A, CHR 0x0B, CHR 0x0C, CHR 0x0D])"

text \<open>What \<open>tinyrl_readtty\<close> does once a handler has set \<open>done\<close>: a last character that is
  a space is deleted.\<close>

definition readtty_strip :: "'h tinyrl \<Rightarrow> 'h tinyrl option" where
  "readtty_strip s =
     (if rl_end s \<noteq> 0 then
        (case line_mem s of
           None \<Rightarrow> None
         | Some m \<Rightarrow>
             if length m \<le> unat (rl_end s - 1) then None
             else if isspace (m ! unat (rl_end s - 1))
             then tinyrl_delete_text s (rl_end s - 1) (rl_end s)
             else Some s)
      else Some s)"

text \<open>The handlers are the caller's, so nothing bounds the number of iterations: the loop
  is a partial function.\<close>

partial_function (option) readtty_loop ::
  "('h \<Rightarrow> 'h tinyrl \<Rightarrow> string \<Rightarrow> (bool \<times> 'h tinyrl) option) \<Rightarrow> utf8 \<Rightarrow> 'h tinyrl \<Rightarrow> string
     \<Rightarrow> 'h tinyrl option" where
  "readtty_loop call U s key =
     (if rl_done s then Some s
      else case tinyrl_redisplay U s of
        None \<Rightarrow> None
      | Some s1 \<Rightarrow>
          (case tinyrl_getchar U s1 key of
             None \<Rightarrow> None
           | Some (key_len, key1, s2) \<Rightarrow>
               if 0 < key_len then
                 (case tinyrl_handle_key call U s2 key1 key_len of
                    None \<Rightarrow> None
                  | Some (key2, s3) \<Rightarrow>
                      (case (if rl_done s3 then readtty_strip s3 else Some s3) of
                         None \<Rightarrow> None
                       | Some s4 \<Rightarrow> readtty_loop call U s4 key2))
               else Some (s2\<lparr>rl_done := True, line := Line_null\<rparr>)))"

declare readtty_loop.simps [code]

text \<open>The terminal modes that \<open>tty_set_raw_mode\<close> and \<open>tty_restore_mode\<close> switch are not
  part of the model.\<close>

definition tinyrl_readtty ::
  "('h \<Rightarrow> 'h tinyrl \<Rightarrow> string \<Rightarrow> (bool \<times> 'h tinyrl) option) \<Rightarrow> utf8 \<Rightarrow> 'h tinyrl
     \<Rightarrow> 'h tinyrl option" where
  "tinyrl_readtty call U s =
     do {
       s1 \<leftarrow> tinyrl_reset_line_state U s;
       readtty_loop call U s1 (replicate 5 (stack_junk s1))
     }"

text \<open>
  \<open>key_read_fails call U s key t\<close>: started in the session \<open>s\<close> with the key array \<open>key\<close>,
  the loop of \<open>tinyrl_readtty\<close> goes through some iterations in which a key is read and
  handled, and then through one in which \<open>tinyrl_getchar\<close> fails (end of file, a read
  error or a byte sequence that is not UTF-8), which leaves the session \<open>t\<close>.
\<close>

inductive key_read_fails ::
  "('h \<Rightarrow> 'h tinyrl \<Rightarrow> string \<Rightarrow> (bool \<times> 'h tinyrl) option) \<Rightarrow> utf8 \<Rightarrow> 'h tinyrl \<Rightarrow> string
     \<Rightarrow> 'h tinyrl \<Rightarrow> bool"
  for call :: "'h \<Rightarrow> 'h tinyrl \<Rightarrow> string \<Rightarrow> (bool \<times> 'h tinyrl) option" and U :: utf8 where
  fails:
    "\<not> rl_done s \<Longrightarrow> tinyrl_redisplay U s = Some s1
       \<Longrightarrow> tinyrl_getchar U s1 key = Some (key_len, key1, s2) \<Longrightarrow> key_len \<le> 0
       \<Longrightarrow> key_read_fails call U s key s2"
| handled:
    "\<not> rl_done s \<Longrightarrow> tinyrl_redisplay U s = Some s1
       \<Longrightarrow> tinyrl_getchar U s1 key = Some (key_len, key1, s2) \<Longrightarrow> 0 < key_len
       \<Longrightarrow> tinyrl_handle_key call U s2 key1 key_len = Some (key2, s3)
       \<Longrightarrow> (if rl_done s3 then readtty_strip s3 else Some s3) = Some s4
       \<Longrightarrow> key_read_fails call U s4 key2 t
       \<Longrightarrow> key_read_fails call U s key t"

text \<open>\<open>fgets\<close>: at most \<open>n - 1\<close> bytes, up to and including a newline.  The result says
  whether the returned pointer is non-null.\<close>

fun fgets_chars :: "nat \<Rightarrow> 'h tinyrl \<Rightarrow> string \<Rightarrow> string \<times> bool \<times> 'h tinyrl" where
  "fgets_chars 0 s acc = (acc, False, s)"
| "fgets_chars (Suc n) s acc =
     (case getc s of
        (Got c, s') \<Rightarrow>
          if c = CHR 0x0A then (acc @ [c], False, s') else fgets_chars n s' (acc @ [c])
      | (At_eof, s') \<Rightarrow> (acc, False, s')
      | (Read_error, s') \<Rightarrow> (acc, True, s'))"

definition fgets :: "'h tinyrl \<Rightarrow> string \<Rightarrow> nat \<Rightarrow> bool \<times> string \<times> 'h tinyrl" where
  "fgets s buf n =
     (case fgets_chars (n - 1) s [] of
        (cs, err, s') \<Rightarrow>
          if err \<or> cs = [] then (False, buf, s')
          else (True, cs @ NUL # drop (length cs + 1) buf, s'))"

text \<open>\<open>strchr(m, c)\<close> as an offset, \<open>None\<close> for the null pointer.\<close>

definition strchr :: "string \<Rightarrow> char \<Rightarrow> nat option" where
  "strchr m c =
     (if c \<in> set (c_str m) then Some (length (takeWhile (\<lambda>x. x \<noteq> c) (c_str m))) else None)"

text \<open>
  The body of the loop of \<open>tinyrl_readraw\<close>, once \<open>fgets\<close> has filled \<open>buf\<close>: the line end
  is cut off, leading white space is skipped at the start of the line, and what remains
  is inserted and displayed.  It returns the array, the pointer \<open>s\<close> as an offset into it,
  and the session.
\<close>

definition readraw_chunk ::
  "utf8 \<Rightarrow> 'h tinyrl \<Rightarrow> string \<Rightarrow> (string \<times> nat \<times> 'h tinyrl) option" where
  "readraw_chunk U s1 buf1 =
     (let p = (case strchr buf1 (CHR 0x0D) of
                 None \<Rightarrow> strchr buf1 (CHR 0x0A)
               | Some k \<Rightarrow> Some k);
          buf2 = (case p of None \<Rightarrow> buf1 | Some k \<Rightarrow> buf1[k := NUL]);
          off = (if point s1 = 0 then length (takeWhile isspace (c_str buf2)) else 0)
      in if drop off (c_str buf2) \<noteq> []
         then (case tinyrl_insert_text s1 (drop off buf2) of
                 None \<Rightarrow> None
               | Some (ok, s2) \<Rightarrow>
                   (case tinyrl_redisplay U s2 of
                      None \<Rightarrow> None
                    | Some s3 \<Rightarrow> Some (buf2, off, s3)))
         else Some (buf2, off, s1))"

text \<open>
  The loop of \<open>tinyrl_readraw\<close>.  \<open>buf\<close> is the local array, \<open>sp\<close> the pointer \<open>s\<close> (\<open>None\<close>
  when null); the pointer is returned with the session.
\<close>

partial_function (option) readraw_loop ::
  "utf8 \<Rightarrow> 'h tinyrl \<Rightarrow> string \<Rightarrow> nat \<Rightarrow> nat option \<Rightarrow> (nat option \<times> 'h tinyrl) option" where
  "readraw_loop U s buf len sp =
     (if len = 80 then
        (case fgets s buf 80 of
           (got, buf1, s1) \<Rightarrow>
             if \<not> got then Some (None, s1)
             else case readraw_chunk U s1 buf1 of
                    None \<Rightarrow> None
                  | Some (buf2, off, s3) \<Rightarrow>
                      readraw_loop U s3 buf2 (strlen buf2 + 1) (Some off))
      else Some (sp, s))"

declare readraw_loop.simps [code]

text \<open>
  \<open>line_read_null U s buf t\<close>: started in the session \<open>s\<close> with the array \<open>buf\<close>, the loop of
  \<open>tinyrl_readraw\<close> reads some chunks that fill the array, and then \<open>fgets\<close> returns the
  null pointer, which leaves the session \<open>t\<close>.
\<close>

inductive line_read_null :: "utf8 \<Rightarrow> 'h tinyrl \<Rightarrow> string \<Rightarrow> 'h tinyrl \<Rightarrow> bool"
  for U :: utf8 where
  null:
    "fgets s buf 80 = (False, buf1, s1) \<Longrightarrow> line_read_null U s buf s1"
| chunk:
    "fgets s buf 80 = (True, buf1, s1) \<Longrightarrow> readraw_chunk U s1 buf1 = Some (buf2, off, s3)
       \<Longrightarrow> strlen buf2 + 1 = 80 \<Longrightarrow> line_read_null U s3 buf2 t
       \<Longrightarrow> line_read_null U s buf t"

definition tinyrl_readraw :: "utf8 \<Rightarrow> 'h tinyrl \<Rightarrow> 'h tinyrl option" where
  "tinyrl_readraw U s =
     (let s0 = s\<lparr>last_buffer := None\<rparr>
      in case readraw_loop U s0 (replicate 80 (stack_junk s0)) 80 None of
           None \<Rightarrow> None
         | Some (None, s1) \<Rightarrow> Some (s1\<lparr>line := Line_null\<rparr>)
         | Some (Some off, s1) \<Rightarrow>
             (case line_mem s1 of
                None \<Rightarrow> None
              | Some m \<Rightarrow>
                  if m = [] then None
                  else if m ! 0 = NUL \<and> istream_eof s1 then Some (s1\<lparr>line := Line_null\<rparr>)
                  else Some ((tinyrl_crlf s1)\<lparr>rl_done := True\<rparr>)))"

section \<open>The session facade\<close>

text \<open>The result is the string returned to the caller (\<open>None\<close> for the null pointer) and the
  session.\<close>

definition tinyrl_readline ::
  "('h \<Rightarrow> 'h tinyrl \<Rightarrow> string \<Rightarrow> (bool \<times> 'h tinyrl) option) \<Rightarrow> utf8 \<Rightarrow> 'h tinyrl
     \<Rightarrow> string option \<Rightarrow> (string option \<times> 'h tinyrl) option" where
  "tinyrl_readline call U s prompt_arg =
     (case alloc s of
        (None, s') \<Rightarrow> None
      | (Some c, s') \<Rightarrow>
          do {
            let s1 = s'\<lparr>rl_done := False, point := 0, rl_end := 0,
                        buffer := Some (strdup []), buffer_size := strlen (strdup []),
                        line := Line_buffer, prompt := prompt_arg\<rparr>;
            s2 \<leftarrow> (if isatty s1 then tinyrl_readtty call U s1 else tinyrl_readraw U s1);
            (result, s3) \<leftarrow>
               (case line s2 of
                  Line_null \<Rightarrow> Some (None, s2)
                | Line_buffer \<Rightarrow> map_option (\<lambda>l. case alloc s2 of
                                     (None, s') \<Rightarrow> (None, s')
                                   | (Some c, s') \<Rightarrow> (Some l, s')) (line_str s2)
                | Line_text t \<Rightarrow> map_option (\<lambda>l. case alloc s2 of
                                     (None, s') \<Rightarrow> (None, s')
                                   | (Some c, s') \<Rightarrow> (Some l, s')) (line_str s2));
            let s4 = s3\<lparr>buffer := None\<rparr>;
            Some (result, if result = None \<or> result = Some [] then tinyrl_crlf s4 else s4)
          })"

text \<open>\<open>tinyrl_init\<close> fills the structure \<open>this\<close>; \<open>tty\<close> is the answer of \<open>isatty\<close> on the
  input stream.  The environment fields of \<open>this\<close> are the environment of the session.\<close>

definition tinyrl_init :: "key_func tinyrl \<Rightarrow> bool \<Rightarrow> key_func tinyrl" where
  "tinyrl_init this tty =
     (let s0 = this\<lparr>keymap := tinyrl_keymap_new\<rparr>;
          s1 = fold (\<lambda>i s. tinyrl_bind_key s (char_of i) (Some Key_default)) [32..<256] s0;
          s2 = tinyrl_bind_key s1 (CHR 0x0D) (Some Key_crlf);
          s3 = tinyrl_bind_key s2 (CHR 0x0A) (Some Key_crlf);
          s4 = tinyrl_bind_key s3 (CHR 0x03) (Some Key_interrupt);
          s5 = tinyrl_bind_key s4 (CHR 0x7F) (Some Key_backspace);
          s6 = tinyrl_bind_key s5 (CHR 0x08) (Some Key_backspace);
          s7 = tinyrl_bind_key s6 (CHR 0x04) (Some Key_delete);
          s8 = tinyrl_bind_key s7 (CHR 0x0C) (Some Key_clear_screen);
          s9 = tinyrl_bind_key s8 (CHR 0x15) (Some Key_erase_line);
          s10 = tinyrl_bind_key s9 (CHR 0x01) (Some Key_start_of_line);
          s11 = tinyrl_bind_key s10 (CHR 0x05) (Some Key_end_of_line);
          s12 = tinyrl_bind_key s11 (CHR 0x0B) (Some Key_kill);
          s13 = tinyrl_bind_key s12 (CHR 0x19) (Some Key_yank);
          s14 = tinyrl_bind_special s13 TINYRL_KEY_RIGHT (Some Key_right);
          s15 = tinyrl_bind_special s14 TINYRL_KEY_LEFT (Some Key_left);
          s16 = tinyrl_bind_special s15 TINYRL_KEY_HOME (Some Key_start_of_line);
          s17 = tinyrl_bind_special s16 TINYRL_KEY_END (Some Key_end_of_line);
          s18 = tinyrl_bind_special s17 TINYRL_KEY_INSERT None;
          s19 = tinyrl_bind_special s18 TINYRL_KEY_DELETE (Some Key_delete)
      in s19\<lparr>line := Line_null, max_line_length := 0, prompt := None, buffer := None,
             buffer_size := 0, rl_done := False, point := 0, rl_end := 0,
             kill_string := None, echo_char := NUL, echo_enabled := True, isatty := tty,
             last_buffer := None, last_end := 0, last_row := 0, last_point_row := 0\<rparr>)"

section \<open>Auxiliary definitions\<close>

text \<open>An allocation is about to succeed.\<close>

definition alloc_ok :: "'h tinyrl \<Rightarrow> bool" where
  "alloc_ok s = (case heap s of [] \<Rightarrow> True | r # rs \<Rightarrow> r \<noteq> None)"

text \<open>The block behind \<open>buffer\<close> has room for \<open>buffer_size\<close> bytes and a terminator.\<close>

definition buffer_fits :: "'h tinyrl \<Rightarrow> bool" where
  "buffer_fits s = (case buffer s of None \<Rightarrow> True | Some b \<Rightarrow> buffer_size s < length b)"

text \<open>The second session is the first with more output written.\<close>

definition prints :: "'h tinyrl \<Rightarrow> 'h tinyrl \<Rightarrow> bool" where
  "prints s s' = (\<exists>out. s' = s\<lparr>ostream := ostream s @ out\<rparr>)"

text \<open>The handler a keymap binds to a byte sequence: the nodes along all bytes but the last
  are followed, and the handler is the one the last node holds for the last byte.\<close>

fun bound :: "'h keymap \<Rightarrow> string \<Rightarrow> 'h option" where
  "bound km [] = None"
| "bound km [c] = handler km c"
| "bound km (c # cs) = (case submap km c of None \<Rightarrow> None | Some km' \<Rightarrow> bound km' cs)"

text \<open>The bytes the input stream delivers before its first end of file or error.\<close>

fun stream_bytes :: "getc_result list \<Rightarrow> string" where
  "stream_bytes (Got c # rs) = c # stream_bytes rs"
| "stream_bytes rs = []"

text \<open>The UTF-8 helpers take the byte \<open>c\<close> for a whole character.\<close>

definition one_byte :: "utf8 \<Rightarrow> char \<Rightarrow> bool" where
  "one_byte U c =
     (utf8_char_len U c = 1
      \<and> (\<forall>key. key \<noteq> [] \<and> hd key = c \<longrightarrow> utf8_char_decode U key 1 = 1))"

text \<open>The second session is the first after \<open>n\<close> reads that found something in the input
  stream.\<close>

definition consumed :: "'h tinyrl \<Rightarrow> nat \<Rightarrow> 'h tinyrl \<Rightarrow> bool" where
  "consumed s n s' =
     (n \<le> length (istream s)
      \<and> s' = s\<lparr>istream := drop n (istream s), istream_eof := istream_eof s'\<rparr>)"

text \<open>The bytes the loop of \<open>tinyrl_handle_key\<close> has yet to look at when it is at index
  \<open>i\<close> of the key array: the rest of the key, and what the input stream delivers.\<close>

definition pending :: "'h tinyrl \<Rightarrow> string \<Rightarrow> int \<Rightarrow> nat \<Rightarrow> string" where
  "pending s key key_len i = drop i (take (nat key_len) key) @ stream_bytes (istream s)"

text \<open>No beginning of \<open>v\<close> that has \<open>k\<close> bytes or more is bound in the keymap.\<close>

definition no_bound :: "'h keymap \<Rightarrow> nat \<Rightarrow> string \<Rightarrow> bool" where
  "no_bound km k v = (\<forall>n \<in> {k..length v}. bound km (take n v) = None)"

text \<open>What the handlers and the redisplay need of the UTF-8 helpers: a previous boundary is
  not after the index, and the next boundary of an index before the end is after the index
  and not after the end.\<close>

definition boundaries_ok :: "utf8 \<Rightarrow> bool" where
  "boundaries_ok U =
     (\<forall>m len i. utf8_grapheme_prev U m len i \<le> i \<and> utf8_char_prev U m len i \<le> i
        \<and> (i < len \<longrightarrow> i < utf8_grapheme_next U m len i \<and> utf8_grapheme_next U m len i \<le> len))"


text \<open>The states of a session between the prologue of \<open>tinyrl_readline\<close> and its epilogue:
  the state the prologue sets up, and what the operations on the line, the built-in handlers
  and the other public functions make of such a state when they return.  The insertions are
  those whose new \<open>end\<close> is representable in \<open>unsigned\<close>, the deletions those of an interval
  \<open>start \<le> end \<le> this->end\<close>, and \<open>tinyrl_replace_line\<close> is called while the line is the
  buffer.\<close>

inductive reachable :: "utf8 \<Rightarrow> 'h tinyrl \<Rightarrow> bool" for U :: utf8 where
  readline_begin:
    "alloc s = (Some c, s')
     \<Longrightarrow> reachable U (s'\<lparr>rl_done := False, point := 0, rl_end := 0,
                           buffer := Some (strdup []), buffer_size := strlen (strdup []),
                           line := Line_buffer, prompt := p\<rparr>)"
| insert_text_len:
    "reachable U s \<Longrightarrow> unat (rl_end s) + unat delta < 2 ^ 32
     \<Longrightarrow> tinyrl_insert_text_len s text delta = Some (ok, s') \<Longrightarrow> reachable U s'"
| insert_text:
    "reachable U s \<Longrightarrow> unat (rl_end s) + strlen text < 2 ^ 32
     \<Longrightarrow> tinyrl_insert_text s text = Some (ok, s') \<Longrightarrow> reachable U s'"
| delete_text:
    "reachable U s \<Longrightarrow> start \<le> end_arg \<Longrightarrow> end_arg \<le> rl_end s
     \<Longrightarrow> tinyrl_delete_text s start end_arg = Some s' \<Longrightarrow> reachable U s'"
| set_line:
    "reachable U s \<Longrightarrow> (case text of None \<Rightarrow> True | Some t \<Rightarrow> strlen t < 2 ^ 32)
     \<Longrightarrow> tinyrl_set_line s text = Some s' \<Longrightarrow> reachable U s'"
| replace_line:
    "reachable U s \<Longrightarrow> line s = Line_buffer \<Longrightarrow> strlen text < 2 ^ 32
     \<Longrightarrow> tinyrl_replace_line U s text = Some s' \<Longrightarrow> reachable U s'"
| redisplay:
    "reachable U s \<Longrightarrow> tinyrl_redisplay U s = Some s' \<Longrightarrow> reachable U s'"
| reset_line_state:
    "reachable U s \<Longrightarrow> tinyrl_reset_line_state U s = Some s' \<Longrightarrow> reachable U s'"
| key:
    "reachable U s
     \<Longrightarrow> unat (rl_end s) + strlen key
           + (case kill_string s of None \<Rightarrow> 0 | Some k \<Rightarrow> strlen k) < 2 ^ 32
     \<Longrightarrow> call_key_func U h s key = Some (ok, s') \<Longrightarrow> reachable U s'"
| printf: "reachable U s \<Longrightarrow> reachable U (tinyrl_printf s out)"
| crlf: "reachable U s \<Longrightarrow> reachable U (tinyrl_crlf s)"
| ding: "reachable U s \<Longrightarrow> reachable U (tinyrl_ding s)"
| set_done: "reachable U s \<Longrightarrow> reachable U (tinyrl_done s)"
| enable_echo: "reachable U s \<Longrightarrow> reachable U (tinyrl_enable_echo s)"
| disable_echo: "reachable U s \<Longrightarrow> reachable U (tinyrl_disable_echo s c)"
| limit_line_length: "reachable U s \<Longrightarrow> reachable U (tinyrl_limit_line_length s n)"
| bind_key: "reachable U s \<Longrightarrow> reachable U (tinyrl_bind_key s k f)"
| bind_special: "reachable U s \<Longrightarrow> reachable U (tinyrl_bind_special s sk f)"

text \<open>What holds of the line in every such state: \<open>point \<le> end\<close>, the buffer is allocated
  and has more than \<open>buffer_size\<close> bytes; when \<open>line\<close> is the buffer, \<open>end \<le> buffer_size\<close>
  and \<open>buffer[end] == 0\<close>; when \<open>line\<close> is a string of the caller, \<open>end\<close> is the length of
  that string, and the buffer holds a string of at most \<open>buffer_size\<close> bytes.\<close>

definition line_invariant :: "'h tinyrl \<Rightarrow> bool" where
  "line_invariant s =
     (point s \<le> rl_end s
      \<and> (case buffer s of
           None \<Rightarrow> False
         | Some b \<Rightarrow>
             buffer_size s < length b
             \<and> (case line s of
                  Line_null \<Rightarrow> False
                | Line_buffer \<Rightarrow> unat (rl_end s) \<le> buffer_size s \<and> b ! unat (rl_end s) = NUL
                | Line_text t \<Rightarrow>
                    unat (rl_end s) = strlen t
                    \<and> NUL \<in> set b \<and> strlen b \<le> buffer_size s \<and> strlen b < 2 ^ 32)))"

text \<open>The two sessions agree on the line, the buffer and the indexes.\<close>

definition same_line :: "'h tinyrl \<Rightarrow> 'h tinyrl \<Rightarrow> bool" where
  "same_line s s' =
     (line s' = line s \<and> buffer s' = buffer s \<and> buffer_size s' = buffer_size s
      \<and> point s' = point s \<and> rl_end s' = rl_end s)"

text \<open>A structure with every field cleared, in an environment with no input, no
  allocation failure and no window size; the sessions of the examples start from it.\<close>

definition cleared :: "key_func tinyrl" where
  "cleared =
     \<lparr>istream = [], istream_eof = False, ostream = [], line = Line_null,
      max_line_length = 0, prompt = None, buffer = None, buffer_size = 0, rl_done = False,
      point = 0, rl_end = 0, kill_string = None, keymap = tinyrl_keymap_new,
      echo_char = NUL, echo_enabled = False, isatty = False, last_buffer = None,
      last_end = 0, last_row = 0, last_point_row = 0, heap = [], stack_junk = NUL,
      ws_col = None\<rparr>"

text \<open>A session in the middle of an edit: the line \<open>hello\<close> in a buffer of 8 bytes, the
  point at the end of the line.\<close>

definition roomy :: "key_func tinyrl" where
  "roomy = cleared\<lparr>line := Line_buffer, buffer := Some (''hello'' @ [NUL, NUL, NUL]),
                   buffer_size := 7, point := 5, rl_end := 5\<rparr>"






text \<open>An interactive session on a terminal where the user types \<open>a\<close> and the input then
  ends; every printable byte is bound to the default handler.\<close>

definition typing :: "key_func tinyrl" where
  "typing = (tinyrl_bind_key cleared (CHR ''a'') (Some Key_default))
              \<lparr>isatty := True, echo_enabled := True, istream := [Got (CHR ''a'')]\<rparr>"

text \<open>A session that is not interactive, whose input is 79 letters \<open>a\<close> followed by the
  end of the file, with no newline.\<close>

definition piped :: "key_func tinyrl" where
  "piped = cleared\<lparr>echo_enabled := True, istream := map Got (replicate 79 (CHR ''a''))\<rparr>"

text \<open>That session as \<open>tinyrl_readline\<close> hands it to \<open>tinyrl_readraw\<close> for an empty prompt, and
  after its first chunk has been read and inserted.\<close>

definition piped_begun :: "key_func tinyrl" where
  "piped_begun = piped\<lparr>buffer := Some [NUL], line := Line_buffer, prompt := Some []\<rparr>"

definition piped_chunk :: "key_func tinyrl" where
  "piped_chunk = piped_begun\<lparr>istream := [], buffer := Some (replicate 79 (CHR ''a'') @ [NUL]),
                             buffer_size := 79, point := 79, rl_end := 79,
                             ostream := replicate 79 (CHR ''a''),
                             last_buffer := Some (replicate 79 (CHR ''a'') @ [NUL]),
                             last_end := 79\<rparr>"

text \<open>A session where Escape is bound to a handler of its own and the left arrow to
  another, with the bytes \<open>[Dx\<close> waiting in the input.\<close>

definition arrows :: "key_func tinyrl" where
  "arrows = (tinyrl_bind_special (tinyrl_bind_key roomy ESC (Some Key_start_of_line))
               TINYRL_KEY_LEFT (Some Key_left))
              \<lparr>istream := [Got (CHR ''[''), Got (CHR ''D''), Got (CHR ''x'')]\<rparr>"

text \<open>The session \<open>cleared\<close> as the prologue of \<open>tinyrl_readline\<close> leaves it.\<close>

definition begun :: "key_func tinyrl" where
  "begun = cleared\<lparr>rl_done := False, point := 0, rl_end := 0,
                    buffer := Some (strdup []), buffer_size := strlen (strdup []),
                    line := Line_buffer, prompt := Some ''> ''\<rparr>"

text \<open>The UTF-8 helpers on text that is ASCII only: every byte is a character and a
  grapheme of width one.\<close>

definition ascii :: utf8 where
  "ascii =
     \<lparr>utf8_char_len = (\<lambda>c. 1),
      utf8_char_decode = (\<lambda>key n. n),
      utf8_char_prev = (\<lambda>m len i. i - 1),
      utf8_grapheme_prev = (\<lambda>m len i. i - 1),
      utf8_grapheme_next = (\<lambda>m len i. i + 1),
      utf8_grapheme_width = (\<lambda>m len i. (1, i + 1))\<rparr>"

section \<open>Deleting an empty interval\<close>

text \<open>
  C10.  For every session state and every offset \<open>a\<close>, \<open>tinyrl_delete_text(a, a)\<close> returns
  before \<open>changed_line\<close> is reached: the whole session state is unchanged (no byte moves,
  point and end keep their values) and the line is not promoted to the buffer, so a \<open>line\<close>
  that referenced a string of the caller still does.
\<close>

theorem delete_text_empty_interval:
  "tinyrl_delete_text s a a = Some s"
  by (simp add: tinyrl_delete_text_def)

section \<open>Facts about C strings and words\<close>

lemma c_str_no_nul: "NUL \<notin> set (c_str t)"
  unfolding c_str_def by (induction t) auto

lemma c_str_append_nul: "NUL \<notin> set xs \<Longrightarrow> c_str (xs @ NUL # ys) = xs"
  unfolding c_str_def by (induction xs) auto

lemma c_str_idem: "NUL \<notin> set xs \<Longrightarrow> c_str xs = xs"
  unfolding c_str_def by (induction xs) auto

lemma c_str_split: "NUL \<in> set b \<Longrightarrow> \<exists>rest. b = c_str b @ NUL # rest"
  unfolding c_str_def by (induction b) auto

lemma block_str_0_decomp:
  "block_str b 0 = Some l \<Longrightarrow> \<exists>rest. b = l @ NUL # rest \<and> NUL \<notin> set l"
  using c_str_split [of b] c_str_no_nul [of b]
  by (auto simp: block_str_def split: if_splits)

lemma block_str_0_append: "NUL \<notin> set l \<Longrightarrow> block_str (l @ NUL # rest) 0 = Some l"
  unfolding block_str_def by (simp add: c_str_append_nul)

lemma unat_succ_sub:
  fixes e b :: "32 word"
  assumes "b \<le> e" "b \<noteq> 0"
  shows "unat (e + 1 - b) = unat e + 1 - unat b"
proof -
  have b1: "unat (b - 1) = unat b - 1" using assms(2) by (rule unat_minus_one)
  have ube: "unat b \<le> unat e" using assms(1) by (simp add: word_le_nat_alt)
  hence le: "b - 1 \<le> e" using b1 by (simp add: word_le_nat_alt)
  have eq: "e + 1 - b = e - (b - 1)" by simp
  have "unat (e + 1 - b) = unat e - unat (b - 1)" unfolding eq by (rule unat_sub [OF le])
  moreover have "0 < unat b" using assms(2) by (simp add: unat_gt_0)
  ultimately show ?thesis using b1 ube by simp
qed

section \<open>Promotion of the line to the buffer\<close>

lemma changed_line_result:
  assumes "changed_line s = Some s1" "line_str s = Some l"
  shows "\<exists>rest. line s1 = Line_buffer \<and> buffer s1 = Some (l @ NUL # rest) \<and> NUL \<notin> set l
           \<and> ((line_is_buffer s \<and> s1 = s)
                \<or> (\<not> line_is_buffer s \<and> rest = []
                    \<and> s1 = s\<lparr>heap := tl (heap s), line := Line_buffer,
                             buffer := Some (l @ [NUL]), buffer_size := length l\<rparr>))"
proof (cases "line_is_buffer s")
  case True
  with assms(2) obtain b where
    b: "line s = Line_buffer" "buffer s = Some b" "block_str b 0 = Some l"
    by (auto simp: line_is_buffer_def line_str_def split: line_ptr.splits option.splits)
  from block_str_0_decomp [OF b(3)] obtain rest where "b = l @ NUL # rest" "NUL \<notin> set l"
    by blast
  with True b assms(1) show ?thesis by (auto simp: changed_line_def)
next
  case False
  from False assms(2) have nn: "NUL \<notin> set l"
    using c_str_no_nul block_str_0_decomp
    by (fastforce simp: line_str_def split: line_ptr.splits option.splits)
  hence cl: "c_str l = l" by (rule c_str_idem)
  show ?thesis
  proof (cases "heap s")
    case Nil
    with False assms nn cl show ?thesis
      by (auto simp: changed_line_def alloc_def strdup_def strlen_def)
  next
    case (Cons r rs)
    with False assms nn cl show ?thesis
      by (auto simp: changed_line_def alloc_def strdup_def strlen_def split: option.splits)
  qed
qed

lemma changed_line_succeeds:
  assumes "line_str s = Some l" "line_is_buffer s \<or> alloc_ok s"
  shows "\<exists>s1. changed_line s = Some s1"
proof (cases "line_is_buffer s")
  case True
  then show ?thesis by (simp add: changed_line_def)
next
  case False
  with assms(2) have "alloc_ok s" by simp
  with False assms(1) show ?thesis
    by (auto simp: changed_line_def alloc_def alloc_ok_def split: list.splits)
qed

section \<open>Deleting text\<close>

text \<open>
  C2.  Let the line be a C string \<open>l\<close> of \<open>end\<close> bytes and \<open>a \<le> b \<le> end\<close> (the copy of a
  borrowed line being allocated).  Then \<open>tinyrl_delete_text(a, b)\<close> returns, \<open>end\<close> has
  decreased by \<open>b - a\<close>, the point is \<open>point - (b - a)\<close> if it was at or after \<open>b\<close>, else \<open>a\<close>
  if it was after \<open>a\<close>, else unchanged, and the bytes from offset \<open>b\<close> on, terminator
  included, now start at offset \<open>a\<close> of the buffer, after the unchanged first \<open>a\<close> bytes.
\<close>

theorem delete_text_spec:
  assumes l: "line_str s = Some l" "length l = unat (rl_end s)"
      and ab: "a \<le> b" "b \<le> rl_end s"
      and mem: "line_is_buffer s \<or> alloc_ok s"
  shows "\<exists>s'. tinyrl_delete_text s a b = Some s'
           \<and> rl_end s' = rl_end s - (b - a)
           \<and> unat (rl_end s') = unat (rl_end s) - (unat b - unat a)
           \<and> point s' = (if b \<le> point s then point s - (b - a)
                          else if a < point s then a else point s)
           \<and> line_str s' = Some (take (unat a) l @ drop (unat b) l)
           \<and> (a < b \<longrightarrow> line s' = Line_buffer
                 \<and> map_option (take (unat (rl_end s') + 1)) (buffer s')
                     = Some (take (unat a) l @ drop (unat b) l @ [NUL]))"
proof (cases "a = b")
  case True
  with l show ?thesis by (auto simp: tinyrl_delete_text_def)
next
  case False
  with ab have lt: "a < b" by simp
  hence b0: "b \<noteq> 0" by (auto simp: word_less_nat_alt)
  have ua: "unat a < unat b" "unat b \<le> unat (rl_end s)"
    using lt ab by (simp_all add: word_less_nat_alt word_le_nat_alt)
  from changed_line_succeeds [OF l(1) mem] obtain s1 where cl: "changed_line s = Some s1"
    by blast
  from changed_line_result [OF cl l(1)] obtain rest where
    s1: "line s1 = Line_buffer" "buffer s1 = Some (l @ NUL # rest)" "NUL \<notin> set l"
        "s1 = s \<or> s1 = s\<lparr>heap := tl (heap s), line := Line_buffer,
                  buffer := Some (l @ [NUL]), buffer_size := length l\<rparr>"
    by blast
  have fr: "rl_end s1 = rl_end s" "point s1 = point s" using s1(4) by auto
  have n: "unat (rl_end s + 1 - b) = length l + 1 - unat b"
    using unat_succ_sub [OF ab(2) b0] l(2) by simp
  have src: "unat (a + (b - a)) = unat b" by simp
  define buf' where
    "buf' = take (unat a) l @ drop (unat b) l
              @ NUL # drop (unat a + (length l + 1 - unat b)) (l @ NUL # rest)"
  have mm: "memmove (l @ NUL # rest) (unat a) (unat b) (length l + 1 - unat b) = Some buf'"
    using ua l(2) by (simp add: memmove_def buf'_def Suc_diff_le)
  have nn': "NUL \<notin> set (take (unat a) l @ drop (unat b) l)"
    using s1(3) by (auto dest: in_set_takeD in_set_dropD)
  have ls: "block_str buf' 0 = Some (take (unat a) l @ drop (unat b) l)"
    using block_str_0_append [OF nn'] by (simp add: buf'_def)
  have ba: "unat (b - a) = unat b - unat a" using ab(1) by (rule unat_sub)
  have "unat (b - a) \<le> unat (rl_end s)" using ba ua by simp
  hence "b - a \<le> rl_end s" by (simp add: word_le_nat_alt)
  hence ue: "unat (rl_end s - (b - a)) = unat (rl_end s) - (unat b - unat a)"
    using ba by (simp add: unat_sub)
  have tk: "take (unat (rl_end s) - (unat b - unat a) + 1) buf'
              = take (unat a) l @ drop (unat b) l @ [NUL]"
    using ua l(2) by (simp add: buf'_def)
  show ?thesis
    using cl s1(1,2) fr mm ls ue lt n src tk
    by (auto simp: tinyrl_delete_text_def Let_def line_str_def)
qed

theorem delete_text_spec_witness:
  "\<exists>s'. tinyrl_delete_text (cleared\<lparr>line := Line_text ''hello'', point := 4, rl_end := 5\<rparr>) 1 3
          = Some s'
        \<and> rl_end s' = 3 \<and> point s' = 2 \<and> line_str s' = Some ''hlo''
        \<and> line s' = Line_buffer
        \<and> map_option (take 4) (buffer s') = Some (''hlo'' @ [NUL])"
  using delete_text_spec [of "cleared\<lparr>line := Line_text ''hello'', point := 4, rl_end := 5\<rparr>"
      "''hello''" 1 3]
  by (auto simp: cleared_def line_str_def c_str_def alloc_ok_def)

section \<open>Inserting text\<close>

lemma realloc_Some:
  "realloc s old n = (Some nb, s')
     \<Longrightarrow> \<exists>c. nb = take n ((case old of None \<Rightarrow> [] | Some b \<Rightarrow> b) @ replicate n c)
            \<and> (s' = s \<or> s' = s\<lparr>heap := tl (heap s)\<rparr>)"
  by (auto simp: realloc_def alloc_def split: list.splits option.splits)

lemma extend_line_buffer_grows:
  assumes "tinyrl_extend_line_buffer s len = (True, s2)" "buffer_size s < unat len"
  shows "\<exists>c n. unat len < n
           \<and> buffer s2 = Some (take n ((case buffer s of None \<Rightarrow> [] | Some b \<Rightarrow> b)
                                       @ replicate n c))
           \<and> buffer_size s2 = n - 1 \<and> line s2 = Line_buffer
           \<and> point s2 = point s \<and> rl_end s2 = rl_end s"
proof (cases "max_line_length s = 0")
  case True
  define new_len where
    "new_len = (if unat len < buffer_size s + 10 then buffer_size s + 10 else unat len)"
  from assms True obtain nb s' where
    r: "realloc s (buffer s) (new_len + 1) = (Some nb, s')" and
    s2: "s2 = s'\<lparr>buffer_size := new_len, line := Line_buffer, buffer := Some nb\<rparr>"
    by (auto simp: tinyrl_extend_line_buffer_def Let_def new_len_def
             split: prod.splits option.splits)
  from realloc_Some [OF r] obtain c where
    "nb = take (new_len + 1) ((case buffer s of None \<Rightarrow> [] | Some b \<Rightarrow> b)
                                @ replicate (new_len + 1) c)"
    "s' = s \<or> s' = s\<lparr>heap := tl (heap s)\<rparr>"
    by blast
  moreover have "unat len < new_len + 1" by (simp add: new_len_def)
  ultimately show ?thesis using s2 by (intro exI [of _ c] exI [of _ "new_len + 1"]) auto
next
  case False
  hence pos: "0 < unat (max_line_length s)" by (simp add: unat_gt_0)
  have m1: "unat (max_line_length s - 1) = unat (max_line_length s) - 1"
    using False by (rule unat_minus_one)
  from assms False obtain nb s' where
    lt: "unat len < unat (max_line_length s)" and
    r: "realloc s (buffer s) (unat (max_line_length s)) = (Some nb, s')" and
    s2: "s2 = s'\<lparr>buffer_size := unat (max_line_length s - 1), line := Line_buffer,
                 buffer := Some nb\<rparr>"
    by (auto simp: tinyrl_extend_line_buffer_def split: prod.splits option.splits if_splits)
  from realloc_Some [OF r] obtain c where
    "nb = take (unat (max_line_length s)) ((case buffer s of None \<Rightarrow> [] | Some b \<Rightarrow> b)
                                @ replicate (unat (max_line_length s)) c)"
    "s' = s \<or> s' = s\<lparr>heap := tl (heap s)\<rparr>"
    by blast
  then show ?thesis
    using s2 lt m1 by (intro exI [of _ c] exI [of _ "unat (max_line_length s)"]) auto
qed

lemma unat_succ_le: "unat (x + 1 :: 32 word) \<le> unat x + 1"
  by (simp add: unat_word_ariths)

lemma memmove_same:
  assumes "p + k \<le> length B"
  shows "memmove B p p k = Some B"
proof -
  have "take k (drop p B) @ drop k (drop p B) = drop p B" by (rule append_take_drop_id)
  hence "take k (drop p B) @ drop (p + k) B = drop p B" by (simp add: add.commute)
  thus ?thesis using assms by (simp add: memmove_def)
qed

lemma insert_copy_result:
  fixes s :: "'h tinyrl"
  assumes B: "buffer s = Some B" "take (Suc (length l)) B = l @ [NUL]"
      and l: "length l = unat (rl_end s)"
      and pe: "point s \<le> rl_end s"
      and room: "unat (rl_end s) + unat delta < length B"
      and nowrap: "unat (rl_end s) + unat delta < 2 ^ 32"
      and d: "unat delta = strlen t"
  shows "\<exists>B'. insert_copy s t delta
                 = Some (True, s\<lparr>buffer := Some B', point := point s + delta,
                                 rl_end := rl_end s + delta\<rparr>)
           \<and> take (Suc (length l + unat delta)) B'
               = take (unat (point s)) l @ c_str t @ drop (unat (point s)) l @ [NUL]"
proof -
  define e p n where "e = unat (rl_end s)" and "p = unat (point s)" and "n = unat delta"
  have pe': "p \<le> e" using pe by (simp add: e_def p_def word_le_nat_alt)
  have len: "length l = e" "e + n < length B" using l room by (simp_all add: e_def n_def)
  have "take e (take (Suc e) B) = take e (l @ [NUL])" using B(2) len by simp
  hence tB: "take e B = l" using len by (simp add: min_def)
  have tl: "take i B = take i l" if "i \<le> e" for i
  proof -
    have "take i (take e B) = take i l" by (simp only: tB)
    thus ?thesis using that by (simp add: min_def)
  qed
  have ct: "length (c_str t) = n" using d by (simp add: strlen_def n_def)
  have ue: "unat (rl_end s + delta) = e + n"
    using nowrap unat_add_lem [of "rl_end s" delta] by (simp add: e_def n_def)
  have "p + n < 2 ^ 32" using pe' nowrap by (simp add: e_def n_def)
  hence up: "unat (point s + delta) = p + n"
    using unat_add_lem [of "point s" delta] by (simp add: p_def n_def)
  have cp: "take n (c_str t) @ replicate (n - strlen t) NUL = c_str t"
    using ct d by (simp add: n_def)
  show ?thesis
  proof (cases "point s < rl_end s")
    case False
    with pe have eq: "point s = rl_end s" by simp
    hence pe2: "p = e" by (simp add: p_def e_def)
    have st: "store B (e + n) NUL = Some (B[e + n := NUL])"
      using len by (simp add: store_def)
    have t1: "take e (B[e + n := NUL]) = l"
      using tB by simp
    have upd: "B[e + n := NUL] = take (e + n) B @ NUL # drop (Suc (e + n)) B"
      using len by (simp add: upd_conv_take_nth_drop)
    have dr: "drop (e + n) (B[e + n := NUL]) = NUL # drop (Suc (e + n)) B"
      using len by (simp add: upd)
    have sc: "strncpy (B[e + n := NUL]) e t n
                = Some (l @ c_str t @ NUL # drop (Suc (e + n)) B)"
      using len t1 cp dr by (simp add: strncpy_def)
    have "insert_copy s t delta
            = Some (True, s\<lparr>buffer := Some (l @ c_str t @ NUL # drop (Suc (e + n)) B),
                             point := point s + delta, rl_end := rl_end s + delta\<rparr>)"
      using B(1) False eq st sc ue
      by (simp add: insert_copy_def e_def [symmetric] n_def [symmetric])
    moreover have "take (Suc (length l + unat delta)) (l @ c_str t @ NUL # drop (Suc (e + n)) B)
                     = take (unat (point s)) l @ c_str t @ drop (unat (point s)) l @ [NUL]"
      using len ct pe2 by (simp add: n_def [symmetric] p_def [symmetric])
    ultimately show ?thesis by blast
  next
    case True
    hence plt: "p < e" by (simp add: p_def e_def word_less_nat_alt)
    have sub: "unat (rl_end s - point s) = e - p"
      using pe by (simp add: unat_sub e_def p_def)
    have dp: "take (Suc e - p) (drop p B) = drop p l @ [NUL]"
    proof -
      have "drop p (take (Suc e) B) = drop p (l @ [NUL])" using B(2) len by simp
      thus ?thesis using len plt by (simp add: drop_take)
    qed
    show ?thesis
    proof (cases "n = 0")
      case True
      hence d0: "delta = 0" by (simp add: n_def unat_eq_0)
      define k where "k = unat (rl_end s - point s + 1)"
      have "k \<le> e - p + 1"
        unfolding k_def using sub unat_succ_le [of "rl_end s - point s"] by simp
      hence kb: "p + k \<le> length B" using len plt by simp
      have mm: "memmove B p p k = Some B" using kb by (rule memmove_same)
      have sc: "strncpy B p t 0 = Some B"
        using kb by (simp add: strncpy_def)
      have "insert_copy s t delta = Some (True, s\<lparr>buffer := Some B, point := point s + delta,
                                 rl_end := rl_end s + delta\<rparr>)"
        using B(1) \<open>point s < rl_end s\<close> mm sc d0
        by (simp add: insert_copy_def k_def [symmetric] p_def [symmetric])
      moreover have "c_str t = []" using ct True by simp
      hence "take (Suc (length l + unat delta)) B
               = take (unat (point s)) l @ c_str t @ drop (unat (point s)) l @ [NUL]"
        using B(2) len True by (simp add: n_def [symmetric])
      ultimately show ?thesis by blast
    next
      case False
      hence "e + 1 < 2 ^ 32" using nowrap by (simp add: e_def n_def)
      hence "unat (rl_end s - point s) + unat (1 :: 32 word) < 2 ^ 32" using sub by simp
      hence k: "unat (rl_end s - point s + 1) = Suc e - p"
        using unat_add_lem [of "rl_end s - point s" 1] sub plt by simp
      define b1 where "b1 = take (p + n) B @ drop p l @ NUL # drop (p + n + (Suc e - p)) B"
      have mm: "memmove B (p + n) p (Suc e - p) = Some b1"
        using len plt dp by (simp add: memmove_def b1_def)
      have tb: "take p b1 = take p l"
        using len plt tl [of p] by (simp add: b1_def min_def)
      have db: "drop (p + n) b1 = drop p l @ NUL # drop (p + n + (Suc e - p)) B"
        using len plt by (simp add: b1_def)
      have lb: "length b1 = length B"
        using len plt by (simp add: b1_def)
      have sc: "strncpy b1 p t n = Some (take p l @ c_str t @ drop p l
                    @ NUL # drop (p + n + (Suc e - p)) B)"
        using lb len plt tb db cp by (simp add: strncpy_def)
      have "insert_copy s t delta
              = Some (True, s\<lparr>buffer := Some (take p l @ c_str t @ drop p l
                    @ NUL # drop (p + n + (Suc e - p)) B), point := point s + delta,
                                 rl_end := rl_end s + delta\<rparr>)"
        using B(1) True mm sc k up
        by (simp add: insert_copy_def p_def [symmetric] n_def [symmetric])
      moreover have "take (Suc (length l + unat delta)) (take p l @ c_str t @ drop p l
                    @ NUL # drop (p + n + (Suc e - p)) B)
             = take (unat (point s)) l @ c_str t @ drop (unat (point s)) l @ [NUL]"
        using len ct plt by (simp add: n_def [symmetric] p_def [symmetric])
      ultimately show ?thesis by blast
    qed
  qed
qed

lemma block_str_0_take:
  assumes "take (Suc (length x)) b = x @ [NUL]" "NUL \<notin> set x"
  shows "block_str b 0 = Some x"
proof -
  have "b = (x @ [NUL]) @ drop (Suc (length x)) b"
    using append_take_drop_id [of "Suc (length x)" b] assms(1) by simp
  hence "b = x @ NUL # drop (Suc (length x)) b" by simp
  thus ?thesis using block_str_0_append [OF assms(2)] by metis
qed

text \<open>
  C1.  Let the line be a C string \<open>l\<close> of \<open>end\<close> bytes with \<open>point \<le> end\<close>, let the buffer
  block, when the line is the buffer, hold \<open>buffer_size + 1\<close> bytes at least, and let
  \<open>end + strlen t\<close> be representable in \<open>unsigned\<close>.  If \<open>tinyrl_insert_text(t)\<close>, which is
  \<open>tinyrl_insert_text_len(t, strlen(t))\<close>, returns true, then \<open>end\<close> and \<open>point\<close> have both
  grown by \<open>strlen t\<close>, and the line, which is now the buffer, consists of the former bytes
  before the point, the bytes of \<open>t\<close>, and the former bytes from the point on, with the
  terminator after them.
\<close>

theorem insert_text_spec:
  assumes l: "line_str s = Some l" "length l = unat (rl_end s)"
      and pe: "point s \<le> rl_end s"
      and fits: "line_is_buffer s \<longrightarrow> buffer_fits s"
      and nowrap: "unat (rl_end s) + strlen t < 2 ^ 32"
      and ok: "tinyrl_insert_text s t = Some (True, s')"
  shows "tinyrl_insert_text s t = tinyrl_insert_text_len s t (of_nat (strlen t))
       \<and> rl_end s' = rl_end s + of_nat (strlen t)
       \<and> unat (rl_end s') = unat (rl_end s) + strlen t
       \<and> point s' = point s + of_nat (strlen t)
       \<and> unat (point s') = unat (point s) + strlen t
       \<and> line s' = Line_buffer
       \<and> line_str s' = Some (take (unat (point s)) l @ c_str t @ drop (unat (point s)) l)
       \<and> map_option (take (unat (rl_end s') + 1)) (buffer s')
           = Some (take (unat (point s)) l @ c_str t @ drop (unat (point s)) l @ [NUL])"
proof -
  define delta :: "32 word" where "delta = of_nat (strlen t)"
  define e p n where "e = unat (rl_end s)" and "p = unat (point s)" and "n = strlen t"
  have "strlen t < 2 ^ 32" using nowrap by simp
  hence d: "unat delta = strlen t" by (simp add: delta_def unat_of_nat)
  have pe': "p \<le> e" using pe by (simp add: e_def p_def word_le_nat_alt)
  from ok obtain s1 where cl: "changed_line s = Some s1"
    by (auto simp: tinyrl_insert_text_def tinyrl_insert_text_len_def split: option.splits)
  from changed_line_result [OF cl l(1)] obtain rest where
    s1: "line s1 = Line_buffer" "buffer s1 = Some (l @ NUL # rest)" "NUL \<notin> set l"
        "(line_is_buffer s \<and> s1 = s) \<or> (\<not> line_is_buffer s \<and> rest = []
            \<and> s1 = s\<lparr>heap := tl (heap s), line := Line_buffer,
                     buffer := Some (l @ [NUL]), buffer_size := length l\<rparr>)"
    by blast
  have fr: "rl_end s1 = rl_end s" "point s1 = point s" using s1(4) by auto
  have fit1: "buffer_size s1 < length (l @ NUL # rest)"
    using s1(2,4) fits by (auto simp: buffer_fits_def)
  have sum: "unat (delta + rl_end s) = e + n"
    using nowrap d unat_add_lem [of delta "rl_end s"] by (simp add: e_def n_def)
  have comm: "rl_end s + delta = delta + rl_end s" by simp
  obtain s2 B where
    s2: "insert_copy s2 t delta = Some (True, s')" "buffer s2 = Some B"
        "take (Suc (length l)) B = l @ [NUL]" "e + n < length B"
        "rl_end s2 = rl_end s" "point s2 = point s" "line s2 = Line_buffer"
  proof (cases "buffer_size s1 < unat (delta + rl_end s1)")
    case False
    with ok cl have "insert_copy s1 t delta = Some (True, s')"
      by (simp add: tinyrl_insert_text_def tinyrl_insert_text_len_def delta_def)
    moreover have "e + n < length (l @ NUL # rest)" using False fit1 sum fr by simp
    ultimately show ?thesis using that [of s1 "l @ NUL # rest"] s1 fr by simp
  next
    case True
    with ok cl obtain s2 where
      ex: "tinyrl_extend_line_buffer s1 (rl_end s1 + delta) = (True, s2)" and
      ic: "insert_copy s2 t delta = Some (True, s')"
      by (auto simp: tinyrl_insert_text_def tinyrl_insert_text_len_def delta_def
               split: prod.splits bool.splits)
    have lt: "buffer_size s1 < unat (rl_end s1 + delta)" using True by (simp add: comm fr)
    from extend_line_buffer_grows [OF ex lt] s1(2) obtain c k where
      k: "unat (rl_end s1 + delta) < k"
         "buffer s2 = Some (take k ((l @ NUL # rest) @ replicate k c))"
         "line s2 = Line_buffer" "point s2 = point s1" "rl_end s2 = rl_end s1"
      by auto
    have ek: "e + n < k" using k(1) sum fr by (simp add: comm)
    have len: "length l = e" using l(2) by (simp add: e_def)
    have "take (Suc (length l)) (take k ((l @ NUL # rest) @ replicate k c)) = l @ [NUL]"
      using ek len by (simp add: min_def)
    moreover have "e + n < length (take k ((l @ NUL # rest) @ replicate k c))"
      using ek by simp
    ultimately show ?thesis using that [of s2] ic k fr by simp
  qed
  have l2: "length l = unat (rl_end s2)" using l(2) s2(5) by simp
  have pe2: "point s2 \<le> rl_end s2" using pe s2(5,6) by simp
  have room: "unat (rl_end s2) + unat delta < length B" using s2(4,5) d by (simp add: e_def n_def)
  have nw: "unat (rl_end s2) + unat delta < 2 ^ 32" using nowrap d s2(5) by simp
  from insert_copy_result [OF s2(2,3) l2 pe2 room nw d] s2(1) obtain B' where
    B': "s' = s2\<lparr>buffer := Some B', point := point s2 + delta, rl_end := rl_end s2 + delta\<rparr>"
        "take (Suc (length l + unat delta)) B'
           = take (unat (point s2)) l @ c_str t @ drop (unat (point s2)) l @ [NUL]"
    by auto
  define x where "x = take p l @ c_str t @ drop p l"
  have lx: "length x = length l + unat delta"
    using pe' l(2) d by (simp add: x_def strlen_def e_def)
  have nx: "NUL \<notin> set x"
    using s1(3) c_str_no_nul [of t] by (auto simp: x_def dest: in_set_takeD in_set_dropD)
  have tk: "take (Suc (length x)) B' = x @ [NUL]"
    using B'(2) lx s2(6) by (simp add: x_def p_def)
  have bs: "block_str B' 0 = Some x" using tk nx by (rule block_str_0_take)
  have ue: "unat (rl_end s + delta) = e + n" using sum by (simp add: comm)
  have "p + n < 2 ^ 32" using pe' nowrap by (simp add: e_def n_def)
  hence up: "unat (point s + delta) = p + n"
    using unat_add_lem [of "point s" delta] d by (simp add: p_def n_def)
  have tk': "take (Suc (e + n)) B' = x @ [NUL]"
    using tk lx l(2) d by (simp add: e_def n_def)
  show ?thesis
    using B'(1) s2(5,6,7) bs ue up tk'
    unfolding delta_def x_def e_def p_def n_def
    by (simp add: tinyrl_insert_text_def line_str_def)
qed

theorem insert_text_spec_witness:
  "\<exists>s'. tinyrl_insert_text (cleared\<lparr>line := Line_text ''held'', point := 3, rl_end := 4\<rparr>) ''lo wor''
          = Some (True, s')
        \<and> rl_end s' = 10 \<and> point s' = 9 \<and> line s' = Line_buffer
        \<and> line_str s' = Some ''hello word''"
proof -
  let ?s = "cleared\<lparr>line := Line_text ''held'', point := 3, rl_end := 4\<rparr>"
  obtain s' where ok: "tinyrl_insert_text ?s ''lo wor'' = Some (True, s')"
    by (simp add: tinyrl_insert_text_def tinyrl_insert_text_len_def changed_line_def
        line_is_buffer_def line_str_def cleared_def alloc_def strlen_def c_str_def strdup_def
        tinyrl_extend_line_buffer_def realloc_def insert_copy_def store_def strncpy_def
        memmove_def)
  have "line_str ?s = Some ''held''" "length ''held'' = unat (rl_end ?s)"
       "point ?s \<le> rl_end ?s" "line_is_buffer ?s \<longrightarrow> buffer_fits ?s"
       "unat (rl_end ?s) + strlen ''lo wor'' < 2 ^ 32"
    by (simp_all add: cleared_def line_str_def c_str_def strlen_def line_is_buffer_def)
  from insert_text_spec [OF this ok] ok show ?thesis
    by (simp add: cleared_def c_str_def strlen_def)
qed

section \<open>Extending the buffer\<close>

lemma extend_enough:
  "unat len \<le> buffer_size s \<Longrightarrow> tinyrl_extend_line_buffer s len = (True, s)"
  by (simp add: tinyrl_extend_line_buffer_def)

lemma alloc_ok_cases:
  "alloc_ok s \<Longrightarrow> \<exists>c. alloc s = (Some c, s) \<or> alloc s = (Some c, s\<lparr>heap := tl (heap s)\<rparr>)"
  by (cases "heap s") (auto simp: alloc_ok_def alloc_def)

lemma alloc_fails_cases:
  "\<not> alloc_ok s \<Longrightarrow> alloc s = (None, s\<lparr>heap := tl (heap s)\<rparr>)"
  by (cases "heap s") (auto simp: alloc_ok_def alloc_def)

lemma realloc_keeps:
  "take n old = take (length old) (take n (old @ replicate n c))"
  by (cases "length old \<le> n") (simp_all add: min_def)

lemma extend_unlimited:
  assumes "buffer_size s < unat len" "max_line_length s = 0" "alloc_ok s"
  shows "\<exists>s' b. tinyrl_extend_line_buffer s len = (True, s')
           \<and> buffer_size s' = max (unat len) (buffer_size s + 10)
           \<and> buffer s' = Some b \<and> length b = buffer_size s' + 1
           \<and> take (buffer_size s' + 1) (case buffer s of None \<Rightarrow> [] | Some old \<Rightarrow> old)
               = take (case buffer s of None \<Rightarrow> 0 | Some old \<Rightarrow> length old) b
           \<and> line s' = Line_buffer \<and> ostream s' = ostream s
           \<and> point s' = point s \<and> rl_end s' = rl_end s"
proof -
  define old where "old = (case buffer s of None \<Rightarrow> [] | Some b \<Rightarrow> b)"
  define n where "n = max (unat len) (buffer_size s + 10)"
  from alloc_ok_cases [OF assms(3)] obtain c s0 where
    a: "alloc s = (Some c, s0)" "s0 = s \<or> s0 = s\<lparr>heap := tl (heap s)\<rparr>" by blast
  define nb where "nb = take (n + 1) (old @ replicate (n + 1) c)"
  have r: "tinyrl_extend_line_buffer s len
             = (True, s0\<lparr>buffer_size := n, line := Line_buffer, buffer := Some nb\<rparr>)"
    using assms(1,2) a(1)
    by (simp add: tinyrl_extend_line_buffer_def realloc_def Let_def n_def old_def max_def
        nb_def)
  have lo: "(case buffer s of None \<Rightarrow> 0 | Some b \<Rightarrow> length b) = length old"
    by (simp add: old_def split: option.splits)
  have ln: "length nb = n + 1" by (simp add: nb_def)
  have "take (n + 1) old = take (length old) nb"
    unfolding nb_def by (rule realloc_keeps)
  thus ?thesis
    unfolding r lo old_def [symmetric] n_def [symmetric] using a(2) ln by auto
qed

lemma extend_limited:
  assumes "buffer_size s < unat len" "max_line_length s \<noteq> 0"
          "unat len < unat (max_line_length s)" "alloc_ok s"
  shows "\<exists>s' b. tinyrl_extend_line_buffer s len = (True, s')
           \<and> buffer_size s' = unat (max_line_length s) - 1
           \<and> buffer s' = Some b \<and> length b = unat (max_line_length s)
           \<and> take (unat (max_line_length s)) (case buffer s of None \<Rightarrow> [] | Some old \<Rightarrow> old)
               = take (case buffer s of None \<Rightarrow> 0 | Some old \<Rightarrow> length old) b
           \<and> line s' = Line_buffer \<and> ostream s' = ostream s
           \<and> point s' = point s \<and> rl_end s' = rl_end s"
proof -
  define old where "old = (case buffer s of None \<Rightarrow> [] | Some b \<Rightarrow> b)"
  define n where "n = unat (max_line_length s)"
  have m1: "unat (max_line_length s - 1) = n - 1"
    unfolding n_def using assms(2) by (rule unat_minus_one)
  from alloc_ok_cases [OF assms(4)] obtain c s0 where
    a: "alloc s = (Some c, s0)" "s0 = s \<or> s0 = s\<lparr>heap := tl (heap s)\<rparr>" by blast
  define nb where "nb = take n (old @ replicate n c)"
  have r: "tinyrl_extend_line_buffer s len
             = (True, s0\<lparr>buffer_size := n - 1, line := Line_buffer, buffer := Some nb\<rparr>)"
    using assms(1,2,3) a(1) m1
    by (simp add: tinyrl_extend_line_buffer_def realloc_def n_def old_def nb_def)
  have lo: "(case buffer s of None \<Rightarrow> 0 | Some b \<Rightarrow> length b) = length old"
    by (simp add: old_def split: option.splits)
  have ln: "length nb = n" by (simp add: nb_def)
  have "take n old = take (length old) nb"
    unfolding nb_def by (rule realloc_keeps)
  thus ?thesis
    unfolding r lo old_def [symmetric] n_def [symmetric] using a(2) ln by auto
qed

lemma extend_fails:
  assumes "buffer_size s < unat len"
          "\<not> alloc_ok s \<or> (max_line_length s \<noteq> 0 \<and> unat (max_line_length s) \<le> unat len)"
  shows "\<exists>s'. tinyrl_extend_line_buffer s len = (False, s')
           \<and> ostream s' = ostream s @ [CHR 0x07]
           \<and> buffer s' = buffer s \<and> buffer_size s' = buffer_size s \<and> line s' = line s
           \<and> point s' = point s \<and> rl_end s' = rl_end s"
proof (cases "max_line_length s \<noteq> 0 \<and> unat (max_line_length s) \<le> unat len")
  case True
  with assms(1) show ?thesis
    by (simp add: tinyrl_extend_line_buffer_def tinyrl_ding_def tinyrl_printf_def)
next
  case False
  with assms(2) have "\<not> alloc_ok s" by blast
  from alloc_fails_cases [OF this] assms(1) False show ?thesis
    by (auto simp: tinyrl_extend_line_buffer_def realloc_def Let_def tinyrl_ding_def
        tinyrl_printf_def)
qed

text \<open>
  C4, as the code has it.  \<open>tinyrl_extend_line_buffer(len)\<close> is guarded by
  \<open>buffer_size < len\<close>: when the buffer already has room for \<open>len\<close> bytes it returns true and
  changes nothing, whatever \<open>max_line_length\<close> is.  Otherwise, with \<open>max_line_length == 0\<close>
  it reallocates to \<open>max(len, buffer_size + 10) + 1\<close> bytes, sets \<open>buffer_size\<close> to
  \<open>max(len, buffer_size + 10)\<close> and returns true; with \<open>max_line_length > len\<close> it
  reallocates to \<open>max_line_length\<close> bytes, sets \<open>buffer_size\<close> to \<open>max_line_length - 1\<close> and
  returns true; in both cases the old contents are kept and \<open>line\<close> is the buffer.  It
  returns false, after ringing the bell, when the reallocation fails or when
  \<open>0 < max_line_length \<le> len\<close>, and then buffer, \<open>buffer_size\<close>, \<open>line\<close>, point and end are
  what they were.
\<close>

theorem extend_line_buffer_spec:
  "(unat len \<le> buffer_size s \<longrightarrow> tinyrl_extend_line_buffer s len = (True, s))
   \<and> (buffer_size s < unat len \<and> max_line_length s = 0 \<and> alloc_ok s \<longrightarrow>
        (\<exists>s' b. tinyrl_extend_line_buffer s len = (True, s')
           \<and> buffer_size s' = max (unat len) (buffer_size s + 10)
           \<and> buffer s' = Some b \<and> length b = buffer_size s' + 1
           \<and> take (buffer_size s' + 1) (case buffer s of None \<Rightarrow> [] | Some old \<Rightarrow> old)
               = take (case buffer s of None \<Rightarrow> 0 | Some old \<Rightarrow> length old) b
           \<and> line s' = Line_buffer \<and> ostream s' = ostream s
           \<and> point s' = point s \<and> rl_end s' = rl_end s))
   \<and> (buffer_size s < unat len \<and> max_line_length s \<noteq> 0
        \<and> unat len < unat (max_line_length s) \<and> alloc_ok s \<longrightarrow>
        (\<exists>s' b. tinyrl_extend_line_buffer s len = (True, s')
           \<and> buffer_size s' = unat (max_line_length s) - 1
           \<and> buffer s' = Some b \<and> length b = unat (max_line_length s)
           \<and> take (unat (max_line_length s)) (case buffer s of None \<Rightarrow> [] | Some old \<Rightarrow> old)
               = take (case buffer s of None \<Rightarrow> 0 | Some old \<Rightarrow> length old) b
           \<and> line s' = Line_buffer \<and> ostream s' = ostream s
           \<and> point s' = point s \<and> rl_end s' = rl_end s))
   \<and> (buffer_size s < unat len
        \<and> (\<not> alloc_ok s \<or> (max_line_length s \<noteq> 0 \<and> unat (max_line_length s) \<le> unat len)) \<longrightarrow>
        (\<exists>s'. tinyrl_extend_line_buffer s len = (False, s')
           \<and> ostream s' = ostream s @ [CHR 0x07]
           \<and> buffer s' = buffer s \<and> buffer_size s' = buffer_size s \<and> line s' = line s
           \<and> point s' = point s \<and> rl_end s' = rl_end s))"
  using extend_enough [of len s] extend_unlimited [of s len] extend_limited [of s len]
    extend_fails [of s len]
  by blast

theorem extend_line_buffer_spec_witness:
  "\<exists>s' b. tinyrl_extend_line_buffer (cleared\<lparr>buffer_size := 3, buffer := Some ''abc''\<rparr>) 5
            = (True, s')
         \<and> buffer_size s' = 13 \<and> buffer s' = Some b \<and> length b = 14 \<and> take 3 b = ''abc''"
  using extend_line_buffer_spec [of 5 "cleared\<lparr>buffer_size := 3, buffer := Some ''abc''\<rparr>"]
  by (auto simp: cleared_def alloc_ok_def numeral_3_eq_3)

text \<open>
  The claim as stated fails on a session whose buffer is already large enough: with
  \<open>max_line_length == 0\<close>, \<open>buffer_size == 7\<close> and \<open>len == 5\<close> the capacity stays 7, it does
  not become \<open>max(5, 7 + 10)\<close>; and with \<open>max_line_length == 4\<close> the call with
  \<open>len == 5 \<ge> max_line_length\<close> returns true and rings no bell.
\<close>

theorem extend_line_buffer_counterexample:
  "max_line_length roomy = 0
   \<and> tinyrl_extend_line_buffer roomy 5 = (True, roomy)
   \<and> buffer_size roomy = 7 \<and> max 5 (buffer_size roomy + 10) = 17
   \<and> max_line_length (tinyrl_limit_line_length roomy 4) = 4
   \<and> tinyrl_extend_line_buffer (tinyrl_limit_line_length roomy 4) 5
       = (True, tinyrl_limit_line_length roomy 4)"
  by (simp add: roomy_def cleared_def tinyrl_extend_line_buffer_def tinyrl_limit_line_length_def)

section \<open>Yank\<close>

lemma key_walk_leaf:
  assumes "i < length key" "submap km (key ! i) = None"
  shows "key_walk U s key key_len i km best
           = Some (case handler km (key ! i) of Some h \<Rightarrow> Some h | None \<Rightarrow> best, key, s)"
  using assms by (subst key_walk.simps) (simp add: Let_def)

text \<open>
  C8, as the code has it.  \<open>tinyrl_key_yank\<close> tests \<open>kill_string\<close> against null.  For every
  session whose \<open>kill_string\<close> is null (nothing has been killed, or the copy of the killed
  text could not be allocated) yank returns false and changes nothing; when the dispatcher
  reaches yank on a key that continues no longer sequence, it rings the bell, and buffer,
  line, point and end are what they were.
\<close>

theorem yank_null_kill_string:
  assumes "kill_string s = None"
      and "key \<noteq> []" "handler (keymap s) (key ! 0) = Some h"
          "submap (keymap s) (key ! 0) = None" "call h = tinyrl_key_yank"
  shows "tinyrl_key_yank s key = Some (False, s)
       \<and> tinyrl_handle_key call U s key key_len = Some (key, tinyrl_ding s)
       \<and> ostream (tinyrl_ding s) = ostream s @ [CHR 0x07]
       \<and> buffer (tinyrl_ding s) = buffer s \<and> line (tinyrl_ding s) = line s
       \<and> point (tinyrl_ding s) = point s \<and> rl_end (tinyrl_ding s) = rl_end s"
proof -
  have y: "tinyrl_key_yank s key = Some (False, s)"
    using assms(1) by (simp add: tinyrl_key_yank_def)
  have "0 < length key" using assms(2) by simp
  from key_walk_leaf [OF this assms(4)] assms(3)
  have "key_walk U s key key_len 0 (keymap s) None = Some (Some h, key, s)" by simp
  hence "tinyrl_handle_key call U s key key_len = Some (key, tinyrl_ding s)"
    using y assms(5) by (simp add: tinyrl_handle_key_def)
  thus ?thesis using y by (simp add: tinyrl_ding_def tinyrl_printf_def)
qed

theorem yank_null_kill_string_witness:
  "tinyrl_key_yank (tinyrl_bind_key cleared (CHR 0x19) (Some Key_yank)) [CHR 0x19, NUL]
     = Some (False, tinyrl_bind_key cleared (CHR 0x19) (Some Key_yank))
   \<and> tinyrl_handle_key (call_key_func ascii) ascii
         (tinyrl_bind_key cleared (CHR 0x19) (Some Key_yank)) [CHR 0x19, NUL] 1
       = Some ([CHR 0x19, NUL], tinyrl_ding (tinyrl_bind_key cleared (CHR 0x19) (Some Key_yank)))
   \<and> ostream (tinyrl_ding (tinyrl_bind_key cleared (CHR 0x19) (Some Key_yank))) = [CHR 0x07]"
  using yank_null_kill_string [of "tinyrl_bind_key cleared (CHR 0x19) (Some Key_yank)"
      "[CHR 0x19, NUL]" Key_yank "call_key_func ascii" ascii 1]
  by (simp add: tinyrl_bind_key_def cleared_def tinyrl_keymap_new_def)

text \<open>
  The claim as stated fails after a kill invoked with \<open>point == end\<close>: the kill stores a copy
  of the empty string, which is not null, and yank then inserts it, returns true and no
  bell is rung.  Here the line is \<open>hello\<close> with the point at its end, and Ctrl-Y is bound to
  yank.
\<close>

theorem yank_after_empty_kill_counterexample:
  "point roomy = rl_end roomy
   \<and> tinyrl_key_kill roomy [CHR 0x0B, NUL] = Some (True, roomy\<lparr>kill_string := Some []\<rparr>)
   \<and> tinyrl_key_yank (roomy\<lparr>kill_string := Some []\<rparr>) [CHR 0x19, NUL]
       = Some (True, roomy\<lparr>kill_string := Some []\<rparr>)
   \<and> tinyrl_handle_key (call_key_func ascii) ascii
         (tinyrl_bind_key (roomy\<lparr>kill_string := Some []\<rparr>) (CHR 0x19) (Some Key_yank))
         [CHR 0x19, NUL] 1
       = Some ([CHR 0x19, NUL],
               tinyrl_bind_key (roomy\<lparr>kill_string := Some []\<rparr>) (CHR 0x19) (Some Key_yank))"
proof -
  have k: "tinyrl_key_kill roomy [CHR 0x0B, NUL] = Some (True, roomy\<lparr>kill_string := Some []\<rparr>)"
    by (simp add: tinyrl_key_kill_def roomy_def cleared_def block_str_def c_str_def alloc_def
        tinyrl_delete_text_def)
  have y: "tinyrl_key_yank (s\<lparr>kill_string := Some []\<rparr>) [CHR 0x19, NUL]
             = Some (True, s\<lparr>kill_string := Some []\<rparr>)"
    if "s = roomy \<or> s = tinyrl_bind_key roomy (CHR 0x19) (Some Key_yank)" for s
    using that
    by (auto simp: tinyrl_key_yank_def tinyrl_insert_text_def tinyrl_insert_text_len_def
        changed_line_def line_is_buffer_def roomy_def cleared_def strlen_def c_str_def
        insert_copy_def store_def strncpy_def tinyrl_bind_key_def)
  have w: "key_walk ascii
             (tinyrl_bind_key (roomy\<lparr>kill_string := Some []\<rparr>) (CHR 0x19) (Some Key_yank))
             [CHR 0x19, NUL] 1 0
             (keymap (tinyrl_bind_key (roomy\<lparr>kill_string := Some []\<rparr>) (CHR 0x19)
                (Some Key_yank))) None
           = Some (Some Key_yank, [CHR 0x19, NUL],
               tinyrl_bind_key (roomy\<lparr>kill_string := Some []\<rparr>) (CHR 0x19) (Some Key_yank))"
    by (subst key_walk_leaf)
       (simp_all add: tinyrl_bind_key_def roomy_def cleared_def tinyrl_keymap_new_def)
  have e: "tinyrl_bind_key (roomy\<lparr>kill_string := Some []\<rparr>) (CHR 0x19) (Some Key_yank)
             = (tinyrl_bind_key roomy (CHR 0x19) (Some Key_yank))\<lparr>kill_string := Some []\<rparr>"
    by (simp add: tinyrl_bind_key_def)
  have h: "tinyrl_handle_key (call_key_func ascii) ascii
         (tinyrl_bind_key (roomy\<lparr>kill_string := Some []\<rparr>) (CHR 0x19) (Some Key_yank))
         [CHR 0x19, NUL] 1
       = Some ([CHR 0x19, NUL],
               tinyrl_bind_key (roomy\<lparr>kill_string := Some []\<rparr>) (CHR 0x19) (Some Key_yank))"
    using y [of "tinyrl_bind_key roomy (CHR 0x19) (Some Key_yank)"] w
    by (simp add: tinyrl_handle_key_def e)
  have p: "point roomy = rl_end roomy" by (simp add: roomy_def)
  show ?thesis using p k y [of roomy] h by simp
qed

section \<open>Redisplay twice\<close>

lemma prints_refl: "prints s s"
  by (auto simp: prints_def intro: exI [of _ "[]"])

lemma prints_trans: "prints s s' \<Longrightarrow> prints s' s'' \<Longrightarrow> prints s s''"
  by (auto simp: prints_def)

lemma prints_printf: "prints s (tinyrl_printf s out)"
  by (auto simp: prints_def tinyrl_printf_def)

lemma prints_vt100:
  "prints s (tinyrl_vt100_cursor_up s n)" "prints s (tinyrl_vt100_cursor_down s n)"
  "prints s (tinyrl_vt100_cursor_forward s n)" "prints s (tinyrl_vt100_erase_line s)"
  "prints s (tinyrl_vt100_erase_line_end s)"
  by (simp_all add: tinyrl_vt100_cursor_up_def tinyrl_vt100_cursor_down_def
      tinyrl_vt100_cursor_forward_def tinyrl_vt100_erase_line_def
      tinyrl_vt100_erase_line_end_def prints_printf)

lemma prints_erase_rows: "prints s (erase_rows n s)"
proof (induction n arbitrary: s)
  case 0
  show ?case by (simp add: prints_refl)
next
  case (Suc n)
  have "prints s (tinyrl_vt100_cursor_up (tinyrl_vt100_erase_line s) 1)"
    by (rule prints_trans [OF prints_vt100(4) prints_vt100(1)])
  from prints_trans [OF this Suc] show ?case by simp
qed

lemma prints_if: "prints s a \<Longrightarrow> prints s b \<Longrightarrow> prints s (if c then a else b)"
  by simp

lemma prints_erase_output:
  "prints (tinyrl_printf s [CHR 0x0D]) (erase_output s keep_row keep_col)"
  unfolding erase_output_def Let_def
  by (intro prints_trans [OF _ prints_vt100(5)] prints_if
      prints_trans [OF _ prints_vt100(3)] prints_trans [OF _ prints_erase_rows]
      prints_vt100 prints_refl)

lemma prints_place_cursor: "prints s (place_cursor s row point_row point_col pt en)"
  unfolding place_cursor_def Let_def
  by (intro prints_if prints_trans [OF _ prints_vt100(3)] prints_trans [OF _ prints_printf]
      prints_trans [OF _ prints_vt100(1)] prints_printf prints_refl)

lemma redisplay_erase_output:
  assumes "redisplay_erase U s w pr pc buf en lb = Some (k, s')"
  shows "prints (tinyrl_printf s [CHR 0x0D]) s'"
proof -
  from assms obtain kr kc where "s' = erase_output s kr kc"
    by (auto simp: redisplay_erase_def Let_def split: Option.bind_splits if_splits
        option.splits)
  thus ?thesis by (simp add: prints_erase_output)
qed

lemma internal_print_frame:
  assumes "tinyrl_internal_print U s = Some (bufp, pt, en, s0)"
  shows "(s0 = s \<or> s0 = s\<lparr>heap := tl (heap s)\<rparr>) \<and> (alloc_ok s \<longrightarrow> bufp \<noteq> None)"
  using assms
  by (cases "heap s")
     (auto simp: tinyrl_internal_print_def alloc_def alloc_ok_def
           split: if_splits option.splits)


lemma redisplay_result:
  assumes r: "tinyrl_redisplay U s = Some s'" and ok: "alloc_ok s"
  shows "\<exists>pr prow pcol buf pt en s0 k s1 tail row col prow0 pcol0.
           prompt s = Some pr
         \<and> tinyrl_string_wrap U (strdup pr) (strlen pr) (tinyrl__get_width s) 0 0
             = Some (prow, pcol)
         \<and> tinyrl_internal_print U s = Some (Some buf, pt, en, s0)
         \<and> (case last_buffer s0 of
               Some lb \<Rightarrow> redisplay_erase U s0 (tinyrl__get_width s) prow pcol buf en lb
             | None \<Rightarrow> Some (0, tinyrl_printf s0 (c_str pr))) = Some (k, s1)
         \<and> block_str buf k = Some tail
         \<and> tinyrl_string_wrap U buf en (tinyrl__get_width s) prow pcol = Some (row, col)
         \<and> tinyrl_string_wrap U buf pt (tinyrl__get_width s) prow pcol = Some (prow0, pcol0)
         \<and> prints (tinyrl_printf s1 tail) (s'\<lparr>last_buffer := last_buffer s1,
                last_end := last_end s1, last_row := last_row s1,
                last_point_row := last_point_row s1\<rparr>)
         \<and> last_buffer s' = Some buf \<and> last_end s' = en \<and> last_row s' = row
         \<and> last_point_row s'
             = (if pcol0 = tinyrl__get_width s
                   \<or> (pt < en \<and> tinyrl__get_width s
                                   < pcol0 + fst (utf8_grapheme_width U buf en pt))
                then prow0 + 1 else prow0)"
proof -
  note d = tinyrl_redisplay_def Let_def
  obtain pr where pr: "prompt s = Some pr"
    by (cases "prompt s") (use r in \<open>auto simp: d\<close>)
  obtain prow pcol where
    pw: "tinyrl_string_wrap U (strdup pr) (strlen pr) (tinyrl__get_width s) 0 0
           = Some (prow, pcol)"
    by (cases "tinyrl_string_wrap U (strdup pr) (strlen pr) (tinyrl__get_width s) 0 0")
       (use r pr in \<open>auto simp: d\<close>)
  obtain bufp pt en s0 where
    ip: "tinyrl_internal_print U s = Some (bufp, pt, en, s0)"
    by (cases "tinyrl_internal_print U s") (use r pr pw in \<open>auto simp: d\<close>)
  from internal_print_frame [OF ip] ok obtain buf where buf: "bufp = Some buf" by auto
  note unf = d pr pw ip buf
  define er where "er = (case last_buffer s0 of
               Some lb \<Rightarrow> redisplay_erase U s0 (tinyrl__get_width s) prow pcol buf en lb
             | None \<Rightarrow> Some (0, tinyrl_printf s0 (c_str pr)))"
  obtain k s1 where er: "er = Some (k, s1)"
    by (cases er) (use r in \<open>auto simp: unf er_def [symmetric]\<close>)
  obtain tail where tl: "block_str buf k = Some tail"
    by (cases "block_str buf k") (use r er in \<open>auto simp: unf er_def [symmetric]\<close>)
  obtain row col where
    rw: "tinyrl_string_wrap U buf en (tinyrl__get_width s) prow pcol = Some (row, col)"
    by (cases "tinyrl_string_wrap U buf en (tinyrl__get_width s) prow pcol")
       (use r er tl in \<open>auto simp: unf er_def [symmetric]\<close>)
  obtain prow0 pcol0 where
    pw0: "tinyrl_string_wrap U buf pt (tinyrl__get_width s) prow pcol = Some (prow0, pcol0)"
    by (cases "tinyrl_string_wrap U buf pt (tinyrl__get_width s) prow pcol")
       (use r er tl rw in \<open>auto simp: unf er_def [symmetric]\<close>)
  define c where "c = (pcol0 = tinyrl__get_width s
                   \<or> (pt < en \<and> tinyrl__get_width s
                                   < pcol0 + fst (utf8_grapheme_width U buf en pt)))"
  have s': "s' = (place_cursor (tinyrl_printf s1 tail) row
        (if c then prow0 + 1 else prow0) (if c then 0 else pcol0) pt en)
          \<lparr>last_buffer := Some buf, last_end := en, last_row := row,
           last_point_row := (if c then prow0 + 1 else prow0)\<rparr>"
    by (cases c) (use r er tl rw pw0 in \<open>auto simp: unf er_def [symmetric] c_def\<close>)
  have "prints (tinyrl_printf s1 tail) (place_cursor (tinyrl_printf s1 tail) row
        (if c then prow0 + 1 else prow0) (if c then 0 else pcol0) pt en)"
    by (rule prints_place_cursor)
  hence "prints (tinyrl_printf s1 tail) (s'\<lparr>last_buffer := last_buffer s1,
                last_end := last_end s1, last_row := last_row s1,
                last_point_row := last_point_row s1\<rparr>)"
    unfolding s' by (auto simp: prints_def tinyrl_printf_def)
  thus ?thesis using pr pw ip buf er tl rw pw0 s' unfolding c_def er_def by auto
qed







lemma internal_print_alloc_ok:
  "tinyrl_internal_print U s = Some (Some buf, pt, en, s0) \<Longrightarrow> alloc_ok s"
  by (cases "heap s")
     (auto simp: tinyrl_internal_print_def alloc_def alloc_ok_def
           split: if_splits option.splits)




lemma ascii_simps:
  "utf8_char_len ascii c = 1" "utf8_char_decode ascii key n = n"
  "utf8_char_prev ascii m len i = i - 1" "utf8_grapheme_prev ascii m len i = i - 1"
  "utf8_grapheme_next ascii m len i = i + 1" "utf8_grapheme_width ascii m len i = (1, i + 1)"
  by (simp_all add: ascii_def)

lemma char_of_digit:
  "char_of (48::nat) = CHR ''0''" "char_of (49::nat) = CHR ''1''"
  "char_of (50::nat) = CHR ''2''" "char_of (51::nat) = CHR ''3''"
  "char_of (52::nat) = CHR ''4''" "char_of (53::nat) = CHR ''5''"
  "char_of (54::nat) = CHR ''6''" "char_of (55::nat) = CHR ''7''"
  "char_of (56::nat) = CHR ''8''" "char_of (57::nat) = CHR ''9''"
  by code_simp+

lemma replicate_5: "replicate 5 x = [x, x, x, x, x]"
  by (simp add: eval_nat_numeral)

lemma wrap_ascii_fits:
  "col + (len - pt) \<le> w \<Longrightarrow>
     string_wrap_loop ascii str len w pt row col = Some (row, col + (len - pt))"
proof (induction "len - pt" arbitrary: pt col)
  case 0
  then show ?case by (subst string_wrap_loop.simps) simp
next
  case (Suc n)
  from Suc.hyps(2) have lt: "pt < len" and n: "n = len - Suc pt" by simp_all
  from Suc.prems lt have le: "Suc col + (len - Suc pt) \<le> w" by simp
  hence nw: "\<not> w < col + 1" by simp
  have "string_wrap_loop ascii str len w pt row col
          = string_wrap_loop ascii str len w (Suc pt) row (Suc col)"
    using lt nw by (subst string_wrap_loop.simps) (simp add: ascii_simps)
  also have "\<dots> = Some (row, Suc col + (len - Suc pt))" by (rule Suc.hyps(1) [OF n le])
  finally show ?case using lt by simp
qed

lemmas redisplay_eval =
  tinyrl_redisplay_def tinyrl__get_width_def tinyrl_string_wrap_def wrap_ascii_fits
  strdup_def strlen_def c_str_def tinyrl_internal_print_def line_str_def block_str_def
  alloc_def tinyrl_printf_def place_cursor_def redisplay_erase_def keep_loop.simps
  memcmp_eq_def ascii_simps erase_output_def tinyrl_vt100_cursor_forward_def
  tinyrl_vt100_cursor_up_def tinyrl_vt100_cursor_down_def tinyrl_vt100_erase_line_def
  tinyrl_vt100_erase_line_end_def printf_d_def dec_digits.simps char_of_digit








section \<open>End of input on a terminal\<close>

lemma key_read_fails_loop:
  "key_read_fails call U s key t
     \<Longrightarrow> readtty_loop call U s key = Some (t\<lparr>rl_done := True, line := Line_null\<rparr>)"
proof (induction rule: key_read_fails.induct)
  case (fails s s1 key key_len key1 s2)
  then show ?case by (subst readtty_loop.simps) simp
next
  case (handled s s1 key key_len key1 s2 key2 s3 s4 t)
  then show ?case by (subst readtty_loop.simps) simp
qed

text \<open>
  C9.  In interactive mode (\<open>isatty\<close>), let the buffer of \<open>tinyrl_readline\<close> be allocated and
  the first display be made.  If then, after any number of keys read and handled, a key
  read fails, \<open>tinyrl_readline\<close> returns the null pointer, whatever the session holds at
  that moment: \<open>line\<close> is set to null and what was typed is not returned.
\<close>

theorem readline_tty_eof:
  assumes tty: "isatty s"
      and mem: "alloc s = (Some c, s0)"
      and first: "tinyrl_reset_line_state U
                    (s0\<lparr>rl_done := False, point := 0, rl_end := 0, buffer := Some (strdup []),
                        buffer_size := strlen (strdup []), line := Line_buffer,
                        prompt := prompt_arg\<rparr>) = Some s1"
      and eof: "key_read_fails call U s1 (replicate 5 (stack_junk s1)) t"
  shows "tinyrl_readline call U s prompt_arg
           = Some (None, tinyrl_crlf (t\<lparr>rl_done := True, line := Line_null, buffer := None\<rparr>))"
proof -
  have i: "isatty s0" using tty mem by (auto simp: alloc_def split: list.splits)
  have "tinyrl_readtty call U
          (s0\<lparr>rl_done := False, point := 0, rl_end := 0, buffer := Some (strdup []),
              buffer_size := strlen (strdup []), line := Line_buffer, prompt := prompt_arg\<rparr>)
          = Some (t\<lparr>rl_done := True, line := Line_null\<rparr>)"
    using first key_read_fails_loop [OF eof] by (simp add: tinyrl_readtty_def)
  thus ?thesis using mem i by (simp add: tinyrl_readline_def)
qed

lemma typing_first:
  "tinyrl_reset_line_state ascii
     (typing\<lparr>rl_done := False, point := 0, rl_end := 0, buffer := Some (strdup []),
             buffer_size := strlen (strdup []), line := Line_buffer, prompt := Some ''> ''\<rparr>)
     = Some (typing\<lparr>buffer := Some [NUL], line := Line_buffer, prompt := Some ''> '',
                     ostream := ''> '', last_buffer := Some [NUL]\<rparr>)"
  by (simp add: tinyrl_reset_line_state_def redisplay_eval typing_def cleared_def
      tinyrl_bind_key_def)

lemmas key_eval =
  tinyrl_getchar_def getc_def store_def getchar_rest.simps tinyrl_handle_key_def
  key_walk.simps tinyrl_getchar_nonblock_def tinyrl_key_default_def tinyrl_insert_text_def
  tinyrl_insert_text_len_def changed_line_def line_is_buffer_def
  tinyrl_extend_line_buffer_def realloc_def insert_copy_def strncpy_def memmove_def
  strlen_def c_str_def alloc_def replicate_5

lemma typing_fails:
  "\<exists>t. key_read_fails (call_key_func ascii) ascii
         (typing\<lparr>buffer := Some [NUL], line := Line_buffer, prompt := Some ''> '',
                     ostream := ''> '', last_buffer := Some [NUL]\<rparr>)
         (replicate 5 NUL) t
       \<and> line_str t = Some ''a''"
  apply (rule exI)
  apply (rule conjI)
   apply (rule key_read_fails.handled)
         apply (simp add: typing_def cleared_def tinyrl_bind_key_def)
        apply (simp add: redisplay_eval typing_def cleared_def tinyrl_bind_key_def)
       apply (simp add: key_eval ascii_simps)
      apply simp
     apply (simp add: key_eval ascii_simps tinyrl_keymap_new_def)
    apply simp
   apply (rule key_read_fails.fails)
      apply simp
     apply (simp add: redisplay_eval)
    apply (simp add: key_eval ascii_simps)
   apply simp
  apply (simp add: line_str_def block_str_def c_str_def)
  done

theorem readline_tty_eof_witness:
  "isatty typing
   \<and> (\<exists>t. key_read_fails (call_key_func ascii) ascii
            (typing\<lparr>buffer := Some [NUL], line := Line_buffer, prompt := Some ''> '',
                    ostream := ''> '', last_buffer := Some [NUL]\<rparr>)
            (replicate 5 NUL) t
          \<and> line_str t = Some ''a''
          \<and> tinyrl_readline (call_key_func ascii) ascii typing (Some ''> '')
              = Some (None, tinyrl_crlf (t\<lparr>rl_done := True, line := Line_null,
                                            buffer := None\<rparr>)))"
proof -
  let ?s1 = "typing\<lparr>buffer := Some [NUL], line := Line_buffer, prompt := Some ''> '',
                    ostream := ''> '', last_buffer := Some [NUL]\<rparr>"
  from typing_fails obtain t where
    t: "key_read_fails (call_key_func ascii) ascii ?s1 (replicate 5 NUL) t"
       "line_str t = Some ''a''"
    by blast
  have tty: "isatty typing" by (simp add: typing_def)
  have mem: "alloc typing = (Some NUL, typing)"
    by (simp add: alloc_def typing_def cleared_def tinyrl_bind_key_def)
  have j: "stack_junk ?s1 = NUL" by (simp add: typing_def cleared_def tinyrl_bind_key_def)
  have eof: "key_read_fails (call_key_func ascii) ascii ?s1 (replicate 5 (stack_junk ?s1)) t"
    using t(1) by (simp only: j)
  from readline_tty_eof [OF tty mem typing_first eof] t tty show ?thesis by blast
qed

section \<open>End of input on a stream that is not a terminal\<close>

lemma line_read_null_loop:
  "line_read_null U s buf t \<Longrightarrow> readraw_loop U s buf 80 sp = Some (None, t)"
proof (induction arbitrary: sp rule: line_read_null.induct)
  case (null s buf buf1 s1)
  then show ?case by (subst readraw_loop.simps) simp
next
  case (chunk s buf buf1 s1 buf2 off s3 t)
  then show ?case by (subst readraw_loop.simps) simp
qed

text \<open>
  C6, as the code has it.  In the mode that is not interactive, whenever \<open>fgets\<close> returns
  the null pointer, after any number of chunks read, \<open>tinyrl_readraw\<close> sets \<open>line\<close> to null,
  whatever the edit buffer holds: \<open>done\<close> is not set and no newline is written, and
  \<open>tinyrl_readline\<close> returns the null pointer.  The other exit of the loop, after a chunk
  that does not fill the array, is the one that commits: there \<open>line\<close> is set to null if
  the line is empty and the stream is at the end of the file, and otherwise a newline is
  written and \<open>done\<close> is set.
\<close>

theorem readraw_read_null:
  "(line_read_null U (s\<lparr>last_buffer := None\<rparr>) (replicate 80 (stack_junk s)) t \<longrightarrow>
      tinyrl_readraw U s = Some (t\<lparr>line := Line_null\<rparr>)
      \<and> rl_done (t\<lparr>line := Line_null\<rparr>) = rl_done t
      \<and> ostream (t\<lparr>line := Line_null\<rparr>) = ostream t)
   \<and> (readraw_loop U (s\<lparr>last_buffer := None\<rparr>) (replicate 80 (stack_junk s)) 80 None
         = Some (Some off, t) \<and> line_mem t = Some m \<and> m \<noteq> [] \<longrightarrow>
      tinyrl_readraw U s
        = Some (if m ! 0 = NUL \<and> istream_eof t then t\<lparr>line := Line_null\<rparr>
                else (tinyrl_crlf t)\<lparr>rl_done := True\<rparr>))
   \<and> (\<not> isatty s \<and> alloc s = (Some c, s0)
       \<and> line_read_null U
            (s0\<lparr>rl_done := False, point := 0, rl_end := 0, buffer := Some (strdup []),
                buffer_size := strlen (strdup []), line := Line_buffer, prompt := prompt_arg,
                last_buffer := None\<rparr>)
            (replicate 80 (stack_junk s0)) t \<longrightarrow>
      tinyrl_readline call U s prompt_arg
        = Some (None, tinyrl_crlf (t\<lparr>line := Line_null, buffer := None\<rparr>)))"
proof (intro conjI impI)
  assume a: "line_read_null U (s\<lparr>last_buffer := None\<rparr>) (replicate 80 (stack_junk s)) t"
  from line_read_null_loop [OF a]
  show "tinyrl_readraw U s = Some (t\<lparr>line := Line_null\<rparr>)"
    by (simp add: tinyrl_readraw_def Let_def)
next
  assume "readraw_loop U (s\<lparr>last_buffer := None\<rparr>) (replicate 80 (stack_junk s)) 80 None
            = Some (Some off, t) \<and> line_mem t = Some m \<and> m \<noteq> []"
  thus "tinyrl_readraw U s
        = Some (if m ! 0 = NUL \<and> istream_eof t then t\<lparr>line := Line_null\<rparr>
                else (tinyrl_crlf t)\<lparr>rl_done := True\<rparr>)"
    by (simp add: tinyrl_readraw_def Let_def)
next
  let ?s1 = "s0\<lparr>rl_done := False, point := 0, rl_end := 0, buffer := Some (strdup []),
                buffer_size := strlen (strdup []), line := Line_buffer, prompt := prompt_arg\<rparr>"
  assume a: "\<not> isatty s \<and> alloc s = (Some c, s0)
       \<and> line_read_null U
            (s0\<lparr>rl_done := False, point := 0, rl_end := 0, buffer := Some (strdup []),
                buffer_size := strlen (strdup []), line := Line_buffer, prompt := prompt_arg,
                last_buffer := None\<rparr>)
            (replicate 80 (stack_junk s0)) t"
  hence i: "\<not> isatty s0" by (auto simp: alloc_def split: list.splits)
  from a have "line_read_null U (?s1\<lparr>last_buffer := None\<rparr>) (replicate 80 (stack_junk ?s1)) t"
    by simp
  from line_read_null_loop [OF this]
  have "tinyrl_readraw U ?s1 = Some (t\<lparr>line := Line_null\<rparr>)"
    by (simp add: tinyrl_readraw_def Let_def)
  thus "tinyrl_readline call U s prompt_arg
        = Some (None, tinyrl_crlf (t\<lparr>line := Line_null, buffer := None\<rparr>))"
    using a i by (simp add: tinyrl_readline_def)
qed simp_all

lemma piped_fgets_first:
  "fgets piped_begun (replicate 80 NUL) 80
     = (True, replicate 79 (CHR ''a'') @ [NUL], piped_begun\<lparr>istream := []\<rparr>)"
  by code_simp

lemma piped_chunk_first:
  "readraw_chunk ascii (piped_begun\<lparr>istream := []\<rparr>) (replicate 79 (CHR ''a'') @ [NUL])
     = Some (replicate 79 (CHR ''a'') @ [NUL], 0, piped_chunk)"
  by code_simp

lemma piped_fgets_second:
  "fgets piped_chunk (replicate 79 (CHR ''a'') @ [NUL]) 80
     = (False, replicate 79 (CHR ''a'') @ [NUL], piped_chunk\<lparr>istream_eof := True\<rparr>)"
  by code_simp

lemma piped_read_null:
  "line_read_null ascii piped_begun (replicate 80 NUL) (piped_chunk\<lparr>istream_eof := True\<rparr>)"
proof -
  have "strlen (replicate 79 (CHR ''a'') @ [NUL]) + 1 = 80" by code_simp
  from line_read_null.chunk [OF piped_fgets_first piped_chunk_first this
      line_read_null.null [OF piped_fgets_second]]
  show ?thesis .
qed

lemma piped_facts:
  "piped_begun\<lparr>last_buffer := None\<rparr> = piped_begun" "stack_junk piped_begun = NUL"
  "\<not> isatty piped" "alloc piped = (Some NUL, piped)"
  "piped\<lparr>rl_done := False, point := 0, rl_end := 0, buffer := Some (strdup []),
         buffer_size := strlen (strdup []), line := Line_buffer, prompt := Some [],
         last_buffer := None\<rparr> = piped_begun"
  "stack_junk piped = NUL"
  "piped\<lparr>rl_done := False, point := 0, rl_end := 0, buffer := Some (strdup []),
         buffer_size := strlen (strdup []), line := Line_buffer, prompt := Some []\<rparr>
     = piped_begun"
  by (simp_all add: piped_begun_def piped_def cleared_def alloc_def strdup_def strlen_def
      c_str_def)

theorem readraw_read_null_witness:
  "line_read_null ascii piped_begun (replicate 80 NUL) (piped_chunk\<lparr>istream_eof := True\<rparr>)
   \<and> tinyrl_readraw ascii piped_begun = Some (piped_chunk\<lparr>istream_eof := True, line := Line_null\<rparr>)
   \<and> tinyrl_readline (call_key_func ascii) ascii piped (Some [])
       = Some (None, tinyrl_crlf (piped_chunk\<lparr>istream_eof := True, line := Line_null,
                                               buffer := None\<rparr>))"
  using readraw_read_null [of ascii piped_begun "piped_chunk\<lparr>istream_eof := True\<rparr>"]
    readraw_read_null [of ascii piped "piped_chunk\<lparr>istream_eof := True\<rparr>" _ _ NUL piped
      "Some []" "call_key_func ascii"]
    piped_read_null
  by (simp add: piped_facts)

text \<open>
  The claim as stated fails when the input ends, without a newline, after a chunk that
  fills the array: here 79 letters.  \<open>fgets\<close> returns them, the loop inserts them and calls
  \<open>fgets\<close> again, which returns null at the end of the file.  The edit buffer then holds the
  79 letters, yet \<open>line\<close> is set to null, \<open>done\<close> is not set, \<open>tinyrl_readraw\<close> writes no
  newline, and \<open>tinyrl_readline\<close> returns the null pointer.
\<close>

theorem readraw_read_null_counterexample:
  "fgets piped_chunk (replicate 79 (CHR ''a'') @ [NUL]) 80
     = (False, replicate 79 (CHR ''a'') @ [NUL], piped_chunk\<lparr>istream_eof := True\<rparr>)
   \<and> line_str (piped_chunk\<lparr>istream_eof := True\<rparr>) = Some (replicate 79 (CHR ''a''))
   \<and> tinyrl_readraw ascii piped_begun
       = Some (piped_chunk\<lparr>istream_eof := True, line := Line_null\<rparr>)
   \<and> \<not> rl_done (piped_chunk\<lparr>istream_eof := True, line := Line_null\<rparr>)
   \<and> ostream (piped_chunk\<lparr>istream_eof := True, line := Line_null\<rparr>) = replicate 79 (CHR ''a'')
   \<and> tinyrl_readline (call_key_func ascii) ascii piped (Some [])
       = Some (None, tinyrl_crlf (piped_chunk\<lparr>istream_eof := True, line := Line_null,
                                               buffer := None\<rparr>))"
proof -
  have l: "line_str (piped_chunk\<lparr>istream_eof := True\<rparr>) = Some (replicate 79 (CHR ''a''))"
    by code_simp
  have r: "tinyrl_readraw ascii piped_begun
       = Some (piped_chunk\<lparr>istream_eof := True, line := Line_null\<rparr>)"
    using line_read_null_loop [OF piped_read_null, of None]
    by (simp add: tinyrl_readraw_def piped_facts)
  have d: "\<not> rl_done (piped_chunk\<lparr>istream_eof := True, line := Line_null\<rparr>)"
    "ostream (piped_chunk\<lparr>istream_eof := True, line := Line_null\<rparr>) = replicate 79 (CHR ''a'')"
    by (simp_all add: piped_chunk_def piped_begun_def piped_def cleared_def)
  have "tinyrl_readline (call_key_func ascii) ascii piped (Some [])
       = Some (None, tinyrl_crlf (piped_chunk\<lparr>istream_eof := True, line := Line_null,
                                               buffer := None\<rparr>))"
    using r piped_facts(3,4) by (simp add: tinyrl_readline_def piped_facts(7))
  with piped_fgets_second l r d show ?thesis by simp
qed

section \<open>Dispatch of keys\<close>

lemma stream_bytes_append: "stream_bytes (map Got cs @ rs) = cs @ stream_bytes rs"
  by (induction cs) simp_all

lemma stream_bytes_Cons:
  "stream_bytes rs = c # cs \<Longrightarrow> \<exists>rest. rs = Got c # rest \<and> stream_bytes rest = cs"
  by (cases rs rule: stream_bytes.cases) simp_all

lemma consumed_refl: "consumed s 0 s"
  by (simp add: consumed_def)

lemma consumed_trans:
  assumes "consumed s a s1" "consumed s1 b s2"
  shows "consumed s (a + b) s2"
proof -
  from assms(1) have a: "a \<le> length (istream s)" "istream s1 = drop a (istream s)"
      "s1 = s\<lparr>istream := drop a (istream s), istream_eof := istream_eof s1\<rparr>"
    by (simp_all add: consumed_def) (metis tinyrl.select_convs(1) tinyrl.surjective tinyrl.update_convs(1,2))
  from assms(2) have b: "b \<le> length (istream s1)"
      "s2 = s1\<lparr>istream := drop b (istream s1), istream_eof := istream_eof s2\<rparr>"
    by (simp_all add: consumed_def)
  have "a + b \<le> length (istream s)" using a(1,2) b(1) by simp
  moreover have "s2 = s\<lparr>istream := drop (a + b) (istream s), istream_eof := istream_eof s2\<rparr>"
    by (subst b(2), subst a(3)) (simp add: a(2) add.commute)
  ultimately show ?thesis by (simp add: consumed_def)
qed

lemma getc_Got:
  "getc s = (Got c, s') \<Longrightarrow>
     \<exists>rs. istream s = Got c # rs \<and> s' = s\<lparr>istream := rs, istream_eof := istream_eof s\<rparr>"
  by (cases "istream s") (auto simp: getc_def)

lemma getc_consumed: "getc s = (r, s') \<Longrightarrow> \<exists>m. consumed s m s'"
proof (cases "istream s")
  case Nil
  assume "getc s = (r, s')"
  with Nil have "consumed s 0 s'" by (auto simp: getc_def consumed_def)
  thus ?thesis ..
next
  case (Cons x xs)
  assume "getc s = (r, s')"
  with Cons have "consumed s 1 s'" by (auto simp: getc_def consumed_def)
  thus ?thesis ..
qed

lemma consumed_Got:
  "istream s = Got c # rs \<Longrightarrow> consumed s 1 (s\<lparr>istream := rs, istream_eof := istream_eof s\<rparr>)"
  by (simp add: consumed_def)

lemma getchar_rest_total:
  "n \<le> length key \<Longrightarrow> \<exists>ok key' j s' m. getchar_rest s key i n = Some (ok, key', j, s')
       \<and> length key' = length key \<and> consumed s m s'"
proof (induction s key i n rule: getchar_rest.induct)
  case (1 s key i n)
  show ?case
  proof (cases "i < n")
    case False
    thus ?thesis using consumed_refl [of s] by auto
  next
    case True
    obtain r s1 where g: "getc s = (r, s1)" by (cases "getc s")
    from getc_consumed [OF g] obtain m1 where m1: "consumed s m1 s1" ..
    show ?thesis
    proof (cases r)
      case (Got c)
      have st: "store key i c = Some (key[i := c])"
        using True "1.prems" by (simp add: store_def)
      have ln: "n \<le> length (key[i := c])" using "1.prems" by simp
      have g': "getc s = (Got c, s1)" using g Got by simp
      from "1.IH" [OF True g' [symmetric] refl st ln]
      obtain ok key' j s' m where
        r: "getchar_rest s1 (key[i := c]) (i + 1) n = Some (ok, key', j, s')"
           "length key' = length key" "consumed s1 m s'"
        by auto
      have "getchar_rest s key i n = Some (ok, key', j, s')"
        using True g Got st r(1) by (subst getchar_rest.simps) simp
      thus ?thesis using r(2) consumed_trans [OF m1 r(3)] by blast
    next
      case At_eof
      hence "getchar_rest s key i n = Some (False, key, i, s1)"
        using True g by (subst getchar_rest.simps) simp
      thus ?thesis using m1 by blast
    next
      case Read_error
      hence "getchar_rest s key i n = Some (False, key, i, s1)"
        using True g by (subst getchar_rest.simps) simp
      thus ?thesis using m1 by blast
    qed
  qed
qed

lemma getchar_rest_success:
  "getchar_rest s key i n = Some (True, key', j, s') \<Longrightarrow> i \<le> n \<Longrightarrow>
     j = n \<and> consumed s (n - i) s'
     \<and> take n key' @ stream_bytes (istream s') = take i key @ stream_bytes (istream s)"
proof (induction s key i n rule: getchar_rest.induct)
  case (1 s key i n)
  show ?case
  proof (cases "i < n")
    case False
    with "1.prems" show ?thesis using consumed_refl [of s] by simp
  next
    case True
    obtain r s1 where g: "getc s = (r, s1)" by (cases "getc s")
    from "1.prems"(1) True g obtain c k where
      c: "r = Got c" and k: "store key i c = Some k"
      and rec: "getchar_rest s1 k (i + 1) n = Some (True, key', j, s')"
      by (subst (asm) getchar_rest.simps)
         (auto split: getc_result.splits option.splits)
    from getc_Got [OF g [unfolded c]] obtain rs where
      rs: "istream s = Got c # rs" "s1 = s\<lparr>istream := rs, istream_eof := istream_eof s\<rparr>"
      by blast
    from k have il: "i < length key" and kk: "k = key[i := c]"
      by (auto simp: store_def split: if_splits)
    have le: "i + 1 \<le> n" using True by simp
    have g': "getc s = (Got c, s1)" using g c by simp
    from "1.IH" [OF True g' [symmetric] refl k rec le]
    have ih: "j = n" "consumed s1 (n - (i + 1)) s'"
         "take n key' @ stream_bytes (istream s') = take (i + 1) k @ stream_bytes (istream s1)"
      by auto
    have "consumed s 1 s1" unfolding rs(2) using rs(1) by (rule consumed_Got)
    have "1 + (n - (i + 1)) = n - i" using True by simp
    with consumed_trans [OF \<open>consumed s 1 s1\<close> ih(2)]
    have c2: "consumed s (n - i) s'" by (simp only:)
    have "take (i + 1) k = take i key @ [c]"
      using il by (simp add: kk take_Suc_conv_app_nth)
    hence "take n key' @ stream_bytes (istream s') = take i key @ stream_bytes (istream s)"
      using ih(3) rs by simp
    thus ?thesis using ih(1) c2 by simp
  qed
qed

lemma getchar_total:
  assumes "\<forall>c. utf8_char_len U c < length key"
  shows "\<exists>k key' s' m. tinyrl_getchar U s key = Some (k, key', s')
           \<and> length key' = length key \<and> consumed s m s'"
proof -
  obtain r s1 where g: "getc s = (r, s1)" by (cases "getc s")
  from getc_consumed [OF g] obtain m1 where m1: "consumed s m1 s1" ..
  show ?thesis
  proof (cases r)
    case (Got c)
    define n where "n = utf8_char_len U c"
    have n: "n < length key" using assms by (simp add: n_def)
    show ?thesis
    proof (cases "n = 0")
      case True
      hence "tinyrl_getchar U s key = Some (- 1, key, s1)"
        using g Got by (simp add: tinyrl_getchar_def n_def)
      thus ?thesis using m1 by blast
    next
      case False
      have st: "store key 0 c = Some (key[0 := c])" using n by (auto simp: store_def)
      have "n \<le> length (key[0 := c])" using n by simp
      from getchar_rest_total [OF this, of s1 1] obtain ok key2 j s2 m2 where
        r: "getchar_rest s1 (key[0 := c]) 1 n = Some (ok, key2, j, s2)"
           "length key2 = length key" "consumed s1 m2 s2"
        by auto
      note c2 = consumed_trans [OF m1 r(3)]
      show ?thesis
      proof (cases ok)
        case False
        hence "tinyrl_getchar U s key = Some (- 1, key2, s2)"
          using g Got \<open>n \<noteq> 0\<close> st r(1) by (simp add: tinyrl_getchar_def n_def [symmetric])
        thus ?thesis using r(2) c2 by blast
      next
        case True
        have r1: "getchar_rest s1 (key[0 := c]) 1 n = Some (True, key2, j, s2)"
          using r(1) True by simp
        have "1 \<le> n" using \<open>n \<noteq> 0\<close> by simp
        from getchar_rest_success [OF r1 this] have j: "j = n" by simp
        have st2: "store key2 j NUL = Some (key2[n := NUL])"
          using n r(2) j by (simp add: store_def)
        have "tinyrl_getchar U s key
                = Some (if utf8_char_decode U (key2[n := NUL]) n \<noteq> n then - 1 else int n,
                        key2[n := NUL], s2)"
          using g Got \<open>n \<noteq> 0\<close> st r(1) True st2
          by (simp add: tinyrl_getchar_def n_def [symmetric])
        thus ?thesis using r(2) c2 by (intro exI conjI) (assumption, simp, assumption)
      qed
    qed
  next
    case At_eof
    hence "tinyrl_getchar U s key = Some (- 1, key, s1)"
      using g by (simp add: tinyrl_getchar_def)
    thus ?thesis using m1 by blast
  next
    case Read_error
    hence "tinyrl_getchar U s key = Some (- 1, key, s1)"
      using g by (simp add: tinyrl_getchar_def)
    thus ?thesis using m1 by blast
  qed
qed

lemma getchar_success:
  assumes "tinyrl_getchar U s key = Some (k, key', s')" "0 < k"
  shows "nat k < length key' \<and> consumed s (nat k) s'
       \<and> take (nat k) key' @ stream_bytes (istream s') = stream_bytes (istream s)"
proof -
  obtain r s1 where g: "getc s = (r, s1)" by (cases "getc s")
  from assms g obtain c where c: "r = Got c"
    by (cases r) (auto simp: tinyrl_getchar_def)
  define n where "n = utf8_char_len U c"
  from getc_Got [OF g [unfolded c]] obtain rs where
    rs: "istream s = Got c # rs" "s1 = s\<lparr>istream := rs, istream_eof := istream_eof s\<rparr>"
    by blast
  have c1: "consumed s 1 s1" unfolding rs(2) using rs(1) by (rule consumed_Got)
  from assms g c obtain key1 key2 j where
    n0: "n \<noteq> 0" and st: "store key 0 c = Some key1"
    and r: "getchar_rest s1 key1 1 n = Some (True, key2, j, s')"
    and st2: "store key2 j NUL = Some key'" and k: "k = int n"
    by (auto simp: tinyrl_getchar_def Let_def n_def [symmetric]
             split: if_splits Option.bind_splits)
  have "1 \<le> n" using n0 by simp
  from getchar_rest_success [OF r this]
  have j: "j = n" and c2: "consumed s1 (n - 1) s'"
    and t: "take n key2 @ stream_bytes (istream s') = take 1 key1 @ stream_bytes (istream s1)"
    by simp_all
  from st have k1: "key1 = key[0 := c]" "0 < length key"
    by (auto simp: store_def split: if_splits)
  from st2 j have k2: "key' = key2[n := NUL]" "n < length key2"
    by (auto simp: store_def split: if_splits)
  have "take 1 key1 = [c]" using k1 by (cases key) simp_all
  hence "take n key' @ stream_bytes (istream s') = stream_bytes (istream s)"
    using t k2 rs by simp
  moreover have "1 + (n - 1) = n" using n0 by simp
  with consumed_trans [OF c1 c2] have "consumed s n s'" by (simp only:)
  ultimately show ?thesis using k k2 by simp
qed

lemma getchar_one_byte:
  assumes "one_byte U c" "istream s = Got c # rest" "2 \<le> length key"
  shows "tinyrl_getchar U s key
           = Some (1, key[0 := c, 1 := NUL], s\<lparr>istream := rest, istream_eof := istream_eof s\<rparr>)"
proof -
  have g: "getc s = (Got c, s\<lparr>istream := rest, istream_eof := istream_eof s\<rparr>)"
    using assms(2) by (simp add: getc_def)
  have n: "utf8_char_len U c = 1" using assms(1) by (simp add: one_byte_def)
  have "key[0 := c, 1 := NUL] \<noteq> [] \<and> hd (key[0 := c, 1 := NUL]) = c"
    using assms(3) by (cases key) (auto simp: hd_conv_nth)
  hence d: "utf8_char_decode U (key[0 := c, 1 := NUL]) 1 = 1"
    using assms(1) by (simp add: one_byte_def)
  show ?thesis
    using g n d assms(3) by (auto simp: tinyrl_getchar_def store_def)
qed

lemma pending_Cons:
  assumes "i < nat key_len" "nat key_len \<le> length key"
  shows "pending s key key_len i = key ! i # pending s key key_len (Suc i)"
proof -
  have "i < length (take (nat key_len) key)" using assms by simp
  from Cons_nth_drop_Suc [OF this] assms(1)
  have "drop i (take (nat key_len) key) = key ! i # drop (Suc i) (take (nat key_len) key)"
    by simp
  thus ?thesis by (simp add: pending_def)
qed

lemma pending_end:
  "nat key_len \<le> i \<Longrightarrow> pending s key key_len i = stream_bytes (istream s)"
  by (simp add: pending_def)

lemma pending_read:
  assumes "tinyrl_getchar U s key = Some (k, key', s')" "0 < k"
  shows "pending s' key' k 0 = stream_bytes (istream s)"
  using getchar_success [OF assms] by (simp add: pending_def)

lemma no_bound_child:
  assumes "no_bound km k (c # v)" "submap km c = Some km'"
  shows "no_bound km' (k - 1) v"
  unfolding no_bound_def
proof
  fix n assume n: "n \<in> {k - 1..length v}"
  show "bound km' (take n v) = None"
  proof (cases "take n v")
    case Nil
    show ?thesis unfolding Nil by simp
  next
    case (Cons c2 r)
    have "Suc n \<in> {k..length (c # v)}" using n by auto
    with assms(1) have "bound km (take (Suc n) (c # v)) = None"
      unfolding no_bound_def by blast
    thus ?thesis using Cons assms(2) by simp
  qed
qed

lemma no_bound_mono: "no_bound km k v \<Longrightarrow> k \<le> k' \<Longrightarrow> no_bound km k' v"
  by (auto simp: no_bound_def)

lemma no_bound_handler: "no_bound km 1 (c # v) \<Longrightarrow> handler km c = None"
  by (auto simp: no_bound_def dest!: bspec [of _ _ 1])

lemma key_walk_unbound:
  "\<forall>c. utf8_char_len U c < length key \<Longrightarrow> i < nat key_len \<Longrightarrow> nat key_len \<le> length key
     \<Longrightarrow> no_bound km 2 (pending s key key_len i)
     \<Longrightarrow> \<exists>key' s' m. key_walk U s key key_len i km best
              = Some (case handler km (key ! i) of Some h \<Rightarrow> Some h | None \<Rightarrow> best, key', s')
            \<and> consumed s m s'"
proof (induction U s key key_len i km best rule: key_walk.induct)
  case (1 U s key key_len i km best)
  define b where "b = (case handler km (key ! i) of Some h \<Rightarrow> Some h | None \<Rightarrow> best)"
  have il: "\<not> length key \<le> i" using "1.prems"(2,3) by simp
  note v = pending_Cons [OF "1.prems"(2,3), of s]
  show ?case
  proof (cases "submap km (key ! i)")
    case None
    hence "key_walk U s key key_len i km best = Some (b, key, s)"
      using il by (subst key_walk.simps) (simp add: b_def)
    thus ?thesis unfolding b_def using consumed_refl [of s] by blast
  next
    case (Some km')
    have nb1: "no_bound km' 1 (pending s key key_len (Suc i))"
      using no_bound_child [OF "1.prems"(4) [unfolded v] Some] by simp
    hence nb2: "no_bound km' 2 (pending s key key_len (Suc i))"
      by (rule no_bound_mono) simp
    show ?thesis
    proof (cases "key_len \<le> int (i + 1)")
      case False
      hence i1: "i + 1 < nat key_len" by simp
      have w: "key_walk U s key key_len i km best = key_walk U s key key_len (i + 1) km' b"
        using il Some False by (subst key_walk.simps) (simp add: b_def)
      have "handler km' (key ! (i + 1)) = None"
        using nb1 pending_Cons [OF i1 "1.prems"(3), of s] no_bound_handler by fastforce
      with "1.IH"(2) [OF il refl refl Some False "1.prems"(1) i1 "1.prems"(3)] nb2
      show ?thesis unfolding w b_def by simp
    next
      case True
      hence pe: "pending s key key_len (Suc i) = stream_bytes (istream s)"
        by (intro pending_end) simp
      from getchar_total [OF "1.prems"(1), of s] obtain k key1 s1 m1 where
        g: "tinyrl_getchar U s key = Some (k, key1, s1)" "length key1 = length key"
           "consumed s m1 s1"
        by blast
      show ?thesis
      proof (cases "k \<le> 0")
        case True
        have "key_walk U s key key_len i km best = Some (b, key1, s1)"
          using il Some \<open>key_len \<le> int (i + 1)\<close> g(1) True
          by (subst key_walk.simps) (simp add: b_def tinyrl_getchar_nonblock_def)
        thus ?thesis unfolding b_def using g(3) by blast
      next
        case False
        hence pos: "0 < k" by simp
        have w: "key_walk U s key key_len i km best = key_walk U s1 key1 k 0 km' b"
          using il Some \<open>key_len \<le> int (i + 1)\<close> g(1) False
          by (subst key_walk.simps) (simp add: b_def tinyrl_getchar_nonblock_def)
        note gs = getchar_success [OF g(1) pos]
        have k0: "0 < nat k" "nat k \<le> length key1" using pos gs by simp_all
        have p1: "pending s1 key1 k 0 = pending s key key_len (Suc i)"
          using pending_read [OF g(1) pos] pe by simp
        have U1: "\<forall>c. utf8_char_len U c < length key1" using "1.prems"(1) g(2) by simp
        have g': "tinyrl_getchar_nonblock U s key = Some (k, key1, s1)"
          using g(1) by (simp add: tinyrl_getchar_nonblock_def)
        have "handler km' (key1 ! 0) = None"
          using nb1 pending_Cons [OF k0, of s1] p1 no_bound_handler by fastforce
        with "1.IH"(1) [OF il refl refl Some True g' refl refl False U1 k0] nb2 p1
        obtain key' s' m where
          r: "key_walk U s1 key1 k 0 km' b = Some (b, key', s')" "consumed s1 m s'"
          unfolding b_def by auto
        from consumed_trans [OF g(3) r(2)] r(1) show ?thesis unfolding w b_def by blast
      qed
    qed
  qed
qed

text \<open>\<open>bound\<close> gives back what \<open>tinyrl_bind_keyseq\<close> and \<open>tinyrl_bind_key\<close> store.\<close>

lemma bound_bind_path: "bound (bind_path km key rest h) (key # rest) = h"
  by (induction rest arbitrary: km key) simp_all

lemma bound_bind_keyseq:
  assumes "NUL \<notin> set seq" "seq \<noteq> []"
  shows "bound (keymap (tinyrl_bind_keyseq s seq h)) seq = h"
proof -
  from assms(2) obtain key rest where seq: "seq = key # rest" by (cases seq) auto
  have "c_str seq = seq" using assms(1) by (auto simp: c_str_def takeWhile_eq_all_conv)
  thus ?thesis using bound_bind_path [of "keymap s" key rest h]
    by (simp add: tinyrl_bind_keyseq_def seq del: bind_path.simps)
qed

lemma bound_bind_key: "bound (keymap (tinyrl_bind_key s c h)) [c] = h"
  by (simp add: tinyrl_bind_key_def)

lemma key_walk_bound:
  "bound km S = Some h \<Longrightarrow> \<forall>c. utf8_char_len U c < length key
     \<Longrightarrow> i < nat key_len \<Longrightarrow> nat key_len \<le> length key
     \<Longrightarrow> pending s key key_len i = S @ X
     \<Longrightarrow> \<forall>c \<in> set (drop (nat key_len - i) S). one_byte U c
     \<Longrightarrow> no_bound km (Suc (length S)) (S @ X)
     \<Longrightarrow> \<exists>key' s' m. key_walk U s key key_len i km best = Some (Some h, key', s')
            \<and> consumed s m s' \<and> length S \<le> nat key_len - i + m"
proof (induction km S arbitrary: s key key_len i best rule: bound.induct)
  case (1 km)
  thus ?case by simp
next
  case (2 km c)
  note v = pending_Cons [OF "2.prems"(3,4), of s]
  have c: "key ! i = c" using v "2.prems"(5) by simp
  have "no_bound km 2 (pending s key key_len i)"
    using "2.prems"(5,7) by (simp add: numeral_2_eq_2)
  from key_walk_unbound [OF "2.prems"(2,3,4) this, of best] obtain key' s' m where
    r: "key_walk U s key key_len i km best
          = Some (case handler km (key ! i) of Some h \<Rightarrow> Some h | None \<Rightarrow> best, key', s')"
       "consumed s m s'"
    by blast
  have "handler km (key ! i) = Some h" using "2.prems"(1) c by simp
  hence "key_walk U s key key_len i km best = Some (Some h, key', s')"
    using r(1) by (simp only: option.case)
  moreover have "length [c] \<le> nat key_len - i + m" using "2.prems"(3) by simp
  ultimately show ?case using r(2) by blast
next
  case (3 km c c2 cs)
  note v = pending_Cons [OF "3.prems"(3,4), of s]
  have c: "key ! i = c" and v': "pending s key key_len (Suc i) = (c2 # cs) @ X"
    using v "3.prems"(5) by simp_all
  have il: "\<not> length key \<le> i" using "3.prems"(3,4) by simp
  from "3.prems"(1) obtain km' where
    km': "submap km c = Some km'" "bound km' (c2 # cs) = Some h"
    by (auto split: option.splits)
  define b where "b = (case handler km c of Some h \<Rightarrow> Some h | None \<Rightarrow> best)"
  have nb: "no_bound km' (Suc (length (c2 # cs))) ((c2 # cs) @ X)"
    using no_bound_child [OF _ km'(1), of "Suc (length (c # c2 # cs))" "(c2 # cs) @ X"]
      "3.prems"(7) by simp
  show ?case
  proof (cases "key_len \<le> int (i + 1)")
    case False
    hence i1: "Suc i < nat key_len" by simp
    have w: "key_walk U s key key_len i km best = key_walk U s key key_len (Suc i) km' b"
      using il km'(1) False c by (subst key_walk.simps) (simp add: b_def)
    have "nat key_len - i = Suc (nat key_len - Suc i)" using i1 by simp
    hence ob: "\<forall>c \<in> set (drop (nat key_len - Suc i) (c2 # cs)). one_byte U c"
      using "3.prems"(6) by simp
    from "3.IH" [OF km' "3.prems"(2) i1 "3.prems"(4) v' ob nb, of b]
    obtain key' s' m where
      r: "key_walk U s key key_len (Suc i) km' b = Some (Some h, key', s')"
         "consumed s m s'" "length (c2 # cs) \<le> nat key_len - Suc i + m"
      by blast
    have "length (c # c2 # cs) \<le> nat key_len - i + m" using r(3) i1 by simp
    thus ?thesis using r(1,2) unfolding w by blast
  next
    case True
    hence kl: "nat key_len = Suc i" using "3.prems"(3) by simp
    have "pending s key key_len (Suc i) = stream_bytes (istream s)"
      using kl by (intro pending_end) simp
    with v' have "stream_bytes (istream s) = c2 # cs @ X" by simp
    from stream_bytes_Cons [OF this] obtain rest where
      rest: "istream s = Got c2 # rest" "stream_bytes rest = cs @ X"
      by blast
    have ob2: "one_byte U c2" and obs: "\<forall>c \<in> set cs. one_byte U c"
      using "3.prems"(6) kl by simp_all
    hence "utf8_char_len U c2 = 1" by (simp add: one_byte_def)
    with "3.prems"(2) have l2: "2 \<le> length key" by (metis Suc_leI one_add_one plus_1_eq_Suc)
    define key1 where "key1 = key[0 := c2, 1 := NUL]"
    define s1 where "s1 = s\<lparr>istream := rest, istream_eof := istream_eof s\<rparr>"
    have g: "tinyrl_getchar U s key = Some (1, key1, s1)"
      unfolding key1_def s1_def using ob2 rest(1) l2 by (rule getchar_one_byte)
    have w: "key_walk U s key key_len i km best = key_walk U s1 key1 1 0 km' b"
      using il km'(1) True c g
      by (subst key_walk.simps) (simp add: b_def tinyrl_getchar_nonblock_def)
    have c1: "consumed s 1 s1" unfolding s1_def using rest(1) by (rule consumed_Got)
    have U1: "\<forall>c. utf8_char_len U c < length key1" using "3.prems"(2) by (simp add: key1_def)
    have k1: "0 < nat 1" "nat 1 \<le> length key1" using l2 by (simp_all add: key1_def)
    have "take 1 key1 = [c2]" using l2 by (cases key) (simp_all add: key1_def)
    hence p1: "pending s1 key1 1 0 = (c2 # cs) @ X"
      using rest(2) by (simp add: pending_def s1_def)
    have ob: "\<forall>c \<in> set (drop (nat 1 - 0) (c2 # cs)). one_byte U c" using obs by simp
    from "3.IH" [OF km' U1 k1 p1 ob nb, of b]
    obtain key' s' m where
      r: "key_walk U s1 key1 1 0 km' b = Some (Some h, key', s')"
         "consumed s1 m s'" "length (c2 # cs) \<le> nat 1 - 0 + m"
      by blast
    have "length (c # c2 # cs) \<le> nat key_len - i + (1 + m)" using r(3) kl by simp
    thus ?thesis using r(1) consumed_trans [OF c1 r(2)] unfolding w by blast
  qed
qed

text \<open>
  C5.  The key array holds the first key, of \<open>key_len\<close> bytes, and the input stream delivers
  what follows; the array is large enough for every character the UTF-8 helpers announce.
  Let the input begin with a byte sequence \<open>S\<close> that the keymap binds to the handler \<open>h\<close>,
  let the bytes of \<open>S\<close> after the first key be one-byte characters (as the bytes of every
  sequence that \<open>tinyrl_bind_key\<close> and \<open>tinyrl_bind_special\<close> bind are), and let no longer
  beginning of the input be bound.  Then the loop of \<open>tinyrl_handle_key\<close> ends with the
  handler \<open>h\<close>, having taken from the stream at least the bytes of \<open>S\<close> that were not in the
  key array and nothing but bytes of the input, which are not put back; \<open>h\<close> is called
  once, and the bell is rung exactly when it returns false.  If no beginning of the input is
  bound, no handler is called and the bell is rung.
\<close>

theorem handle_key_longest_prefix:
  assumes U: "\<forall>c. utf8_char_len U c < length key"
      and k: "0 < key_len" "nat key_len \<le> length key"
  shows "(pending s key key_len 0 = S @ X \<and> bound (keymap s) S = Some h
            \<and> (\<forall>c \<in> set (drop (nat key_len) S). one_byte U c)
            \<and> no_bound (keymap s) (Suc (length S)) (S @ X)
          \<longrightarrow> (\<exists>key' s' m. key_walk U s key key_len 0 (keymap s) None = Some (Some h, key', s')
                \<and> consumed s m s' \<and> length S \<le> nat key_len + m
                \<and> tinyrl_handle_key call U s key key_len
                    = (case call h s' key' of
                         None \<Rightarrow> None
                       | Some (ok, s'') \<Rightarrow> Some (key', if ok then s'' else tinyrl_ding s''))))
       \<and> (no_bound (keymap s) 0 (pending s key key_len 0)
          \<longrightarrow> (\<exists>key' s' m. key_walk U s key key_len 0 (keymap s) None = Some (None, key', s')
                \<and> consumed s m s'
                \<and> tinyrl_handle_key call U s key key_len = Some (key', tinyrl_ding s')))
       \<and> ostream (tinyrl_ding s) = ostream s @ [CHR 0x07]"
proof (intro conjI impI)
  assume a: "pending s key key_len 0 = S @ X \<and> bound (keymap s) S = Some h
            \<and> (\<forall>c \<in> set (drop (nat key_len) S). one_byte U c)
            \<and> no_bound (keymap s) (Suc (length S)) (S @ X)"
  have i: "0 < nat key_len" using k(1) by simp
  have ob: "\<forall>c \<in> set (drop (nat key_len - 0) S). one_byte U c" using a by simp
  from a key_walk_bound [OF _ U i k(2) _ ob, of "keymap s" h s X None]
  obtain key' s' m where
    r: "key_walk U s key key_len 0 (keymap s) None = Some (Some h, key', s')"
       "consumed s m s'" "length S \<le> nat key_len + m"
    by auto
  have "tinyrl_handle_key call U s key key_len
          = (case call h s' key' of
               None \<Rightarrow> None
             | Some (ok, s'') \<Rightarrow> Some (key', if ok then s'' else tinyrl_ding s''))"
    using r(1) by (simp add: tinyrl_handle_key_def)
  with r show "\<exists>key' s' m. key_walk U s key key_len 0 (keymap s) None = Some (Some h, key', s')
                \<and> consumed s m s' \<and> length S \<le> nat key_len + m
                \<and> tinyrl_handle_key call U s key key_len
                    = (case call h s' key' of
                         None \<Rightarrow> None
                       | Some (ok, s'') \<Rightarrow> Some (key', if ok then s'' else tinyrl_ding s''))"
    by blast
next
  assume a: "no_bound (keymap s) 0 (pending s key key_len 0)"
  have i: "0 < nat key_len" using k(1) by simp
  note v = pending_Cons [OF i k(2), of s]
  have "no_bound (keymap s) 1 (key ! 0 # pending s key key_len (Suc 0))"
    using no_bound_mono [OF a, of 1] v by simp
  hence h: "handler (keymap s) (key ! 0) = None" by (rule no_bound_handler)
  have "no_bound (keymap s) 2 (pending s key key_len 0)" using a by (rule no_bound_mono) simp
  from key_walk_unbound [OF U i k(2) this, of None] h
  obtain key' s' m where
    r: "key_walk U s key key_len 0 (keymap s) None = Some (None, key', s')" "consumed s m s'"
    by auto
  have "tinyrl_handle_key call U s key key_len = Some (key', tinyrl_ding s')"
    using r(1) by (simp add: tinyrl_handle_key_def)
  with r show "\<exists>key' s' m. key_walk U s key key_len 0 (keymap s) None = Some (None, key', s')
                \<and> consumed s m s'
                \<and> tinyrl_handle_key call U s key key_len = Some (key', tinyrl_ding s')"
    by blast
next
  show "ostream (tinyrl_ding s) = ostream s @ [CHR 0x07]"
    by (simp add: tinyrl_ding_def tinyrl_printf_def)
qed

theorem handle_key_longest_prefix_witness:
  "\<exists>key' s' m. key_walk ascii arrows [ESC, NUL, NUL, NUL, NUL] 1 0 (keymap arrows) None
                  = Some (Some Key_left, key', s')
     \<and> consumed arrows m s' \<and> length [ESC, CHR ''['', CHR ''D''] \<le> nat 1 + m
     \<and> tinyrl_handle_key (call_key_func ascii) ascii arrows [ESC, NUL, NUL, NUL, NUL] 1
         = (case call_key_func ascii Key_left s' key' of
              None \<Rightarrow> None
            | Some (ok, s'') \<Rightarrow> Some (key', if ok then s'' else tinyrl_ding s''))"
proof -
  have U: "\<forall>c. utf8_char_len ascii c < length [ESC, NUL, NUL, NUL, NUL]"
    by (simp add: ascii_simps)
  have k: "0 < (1 :: int)" "nat 1 \<le> length [ESC, NUL, NUL, NUL, NUL]" by simp_all
  have p: "pending arrows [ESC, NUL, NUL, NUL, NUL] 1 0 = [ESC, CHR ''['', CHR ''D''] @ ''x''"
    by (simp add: pending_def arrows_def)
  have b: "bound (keymap arrows) [ESC, CHR ''['', CHR ''D''] = Some Key_left"
    by code_simp
  have o: "\<forall>c \<in> set (drop (nat 1) [ESC, CHR ''['', CHR ''D'']). one_byte ascii c"
    by (simp add: one_byte_def ascii_simps)
  have "bound (keymap arrows) [ESC, CHR ''['', CHR ''D'', CHR ''x''] = None"
    by code_simp
  hence n: "no_bound (keymap arrows) (Suc (length [ESC, CHR ''['', CHR ''D'']))
              ([ESC, CHR ''['', CHR ''D''] @ ''x'')"
    by (simp add: no_bound_def)
  from handle_key_longest_prefix [OF U k, THEN conjunct1, rule_format,
      OF conjI [OF p conjI [OF b conjI [OF o n]]], of "call_key_func ascii"]
  show ?thesis .
qed

section \<open>The invariant of the line\<close>

lemma same_line_refl: "same_line s s"
  by (simp add: same_line_def)

lemma same_line_trans: "same_line s s' \<Longrightarrow> same_line s' s'' \<Longrightarrow> same_line s s''"
  by (simp add: same_line_def)

lemma same_line_invariant: "same_line s s' \<Longrightarrow> line_invariant s \<Longrightarrow> line_invariant s'"
  by (auto simp: same_line_def line_invariant_def split: option.splits line_ptr.splits)

lemma prints_same_line: "prints s s' \<Longrightarrow> same_line s s'"
  by (auto simp: prints_def same_line_def)

lemma alloc_same_line: "alloc s = (r, s') \<Longrightarrow> same_line s s'"
  by (cases "heap s") (auto simp: alloc_def same_line_def)

lemma line_invariant_bufferI:
  assumes "point s \<le> rl_end s" "buffer s = Some b" "line s = Line_buffer"
          "buffer_size s < length b" "unat (rl_end s) \<le> buffer_size s"
          "b ! unat (rl_end s) = NUL"
  shows "line_invariant s"
  using assms by (simp add: line_invariant_def)

lemma line_invariant_bufferD:
  assumes "line_invariant s" "line s = Line_buffer"
  shows "\<exists>b. buffer s = Some b \<and> buffer_size s < length b
           \<and> unat (rl_end s) \<le> buffer_size s \<and> b ! unat (rl_end s) = NUL"
    and "point s \<le> rl_end s"
  using assms by (auto simp: line_invariant_def split: option.splits)

lemma strlen_c_str: "strlen (c_str t) = strlen t"
  by (simp add: strlen_def c_str_idem [OF c_str_no_nul])

lemma strdup_c_str: "strdup (c_str t) = c_str t @ [NUL]"
  by (simp add: strdup_def c_str_idem [OF c_str_no_nul])

lemma changed_line_invariant:
  assumes "line_invariant s" "changed_line s = Some s1"
  shows "line_invariant s1 \<and> line s1 = Line_buffer \<and> point s1 = point s
       \<and> rl_end s1 = rl_end s"
proof (cases "line s")
  case Line_null
  with assms(1) show ?thesis by (simp add: line_invariant_def split: option.splits)
next
  case Line_buffer
  with assms(1) have "line_is_buffer s"
    by (simp add: line_invariant_def line_is_buffer_def split: option.splits)
  with assms Line_buffer show ?thesis by (simp add: changed_line_def)
next
  case (Line_text t)
  hence nb: "\<not> line_is_buffer s" and ls: "line_str s = Some (c_str t)"
    by (simp_all add: line_is_buffer_def line_str_def)
  from assms(2) nb ls obtain c s' where
    a: "alloc s = (Some c, s')"
    and s1: "s1 = s'\<lparr>line := Line_buffer, buffer := Some (strdup (c_str t)),
                      buffer_size := strlen (c_str t)\<rparr>"
    by (auto simp: changed_line_def split: prod.splits option.splits)
  note f = alloc_same_line [OF a, unfolded same_line_def]
  have e: "unat (rl_end s) = strlen t" "point s \<le> rl_end s"
    using assms(1) Line_text by (auto simp: line_invariant_def split: option.splits)
  have nul: "(c_str t @ [NUL]) ! strlen t = NUL" "strlen t < Suc (length (c_str t))"
    by (simp_all add: strlen_def)
  have "line_invariant s1"
    using e f nul
    by (intro line_invariant_bufferI [of _ "c_str t @ [NUL]"])
       (simp_all add: s1 strdup_c_str strlen_c_str)
  thus ?thesis using f by (simp add: s1)
qed

lemma memmove_length: "memmove b dst src n = Some b' \<Longrightarrow> length b' = length b"
  by (auto simp: memmove_def split: if_splits)

lemma memmove_nth_moved:
  assumes "memmove b dst src n = Some b'" "j < n"
  shows "b' ! (dst + j) = b ! (src + j)"
proof -
  from assms(1) have r: "dst + n \<le> length b" "src + n \<le> length b"
      "b' = take dst b @ take n (drop src b) @ drop (dst + n) b"
    by (auto simp: memmove_def split: if_splits)
  have "b' ! (dst + j) = (take n (drop src b) @ drop (dst + n) b) ! j"
    unfolding r(3) using r(1) by (simp add: nth_append)
  also have "\<dots> = b ! (src + j)" using assms(2) r(2) by (simp add: nth_append)
  finally show ?thesis .
qed

lemma memmove_nth_after:
  assumes "memmove b dst src n = Some b'" "dst + n \<le> i"
  shows "b' ! i = b ! i"
proof -
  from assms(1) have r: "dst + n \<le> length b" "src + n \<le> length b"
      "b' = take dst b @ take n (drop src b) @ drop (dst + n) b"
    by (auto simp: memmove_def split: if_splits)
  have "b' ! i = (take n (drop src b) @ drop (dst + n) b) ! (i - dst)"
    unfolding r(3) using r(1) assms(2) by (simp add: nth_append)
  also have "\<dots> = drop (dst + n) b ! (i - dst - n)"
    using assms(2) r(2) by (simp add: nth_append)
  also have "\<dots> = b ! i" using assms(2) r(1) by simp
  finally show ?thesis .
qed

lemma strncpy_length: "strncpy b dst t n = Some b' \<Longrightarrow> length b' = length b"
  by (auto simp: strncpy_def strlen_def split: if_splits)

lemma strncpy_nth_after:
  assumes "strncpy b dst t n = Some b'" "dst + n \<le> i"
  shows "b' ! i = b ! i"
proof -
  define x where "x = take n (c_str t) @ replicate (n - strlen t) NUL"
  have lx: "length x = n" by (auto simp: x_def strlen_def)
  from assms(1) have r: "dst + n \<le> length b" "b' = take dst b @ x @ drop (dst + n) b"
    by (auto simp: strncpy_def x_def split: if_splits)
  have ge: "\<not> i - dst < length x" using assms(2) lx by simp
  have "b' ! i = (x @ drop (dst + n) b) ! (i - dst)"
    unfolding r(2) using r(1) assms(2) by (simp add: nth_append)
  also have "\<dots> = drop (dst + n) b ! (i - dst - n)"
    using ge lx by (simp only: nth_append if_False)
  also have "\<dots> = b ! i" using assms(2) r(1) by simp
  finally show ?thesis .
qed

lemma strlen_le_nth:
  assumes "i < length b" "b ! i = NUL"
  shows "strlen b \<le> i"
proof (rule ccontr)
  assume "\<not> strlen b \<le> i"
  hence lt: "i < length (takeWhile (\<lambda>c. c \<noteq> NUL) b)" by (simp add: strlen_def c_str_def)
  hence "takeWhile (\<lambda>c. c \<noteq> NUL) b ! i \<in> set (takeWhile (\<lambda>c. c \<noteq> NUL) b)"
    by (rule nth_mem)
  hence "takeWhile (\<lambda>c. c \<noteq> NUL) b ! i \<noteq> NUL" by (rule set_takeWhileD [THEN conjunct2])
  with takeWhile_nth [OF lt] assms(2) show False by simp
qed

lemma nth_strlen:
  assumes "strlen b < length b"
  shows "b ! strlen b = NUL"
  using nth_length_takeWhile [of "\<lambda>c. c \<noteq> NUL" b] assms by (simp add: strlen_def c_str_def)

lemma buffer_string:
  assumes "line_invariant s" "buffer s = Some b"
  shows "NUL \<in> set b \<and> strlen b \<le> buffer_size s \<and> strlen b < 2 ^ 32 \<and> b ! strlen b = NUL"
proof -
  have len: "buffer_size s < length b"
    using assms by (simp add: line_invariant_def)
  have "NUL \<in> set b \<and> strlen b \<le> buffer_size s \<and> strlen b < 2 ^ 32"
  proof (cases "line s")
    case Line_null
    with assms show ?thesis by (simp add: line_invariant_def)
  next
    case Line_buffer
    with assms have e: "unat (rl_end s) \<le> buffer_size s" "b ! unat (rl_end s) = NUL"
      by (simp_all add: line_invariant_def)
    have il: "unat (rl_end s) < length b" using e(1) len by simp
    from nth_mem [OF il] e(2) have "NUL \<in> set b" by simp
    moreover have "strlen b \<le> unat (rl_end s)" using il e(2) by (rule strlen_le_nth)
    moreover have "unat (rl_end s) < 2 ^ 32" using unsigned_less [of "rl_end s"] by simp
    ultimately show ?thesis using e(1) by simp
  next
    case (Line_text t)
    with assms show ?thesis by (simp add: line_invariant_def)
  qed
  moreover from this len have "b ! strlen b = NUL" by (intro nth_strlen) simp
  ultimately show ?thesis by simp
qed

lemma extend_fails_same_line:
  "tinyrl_extend_line_buffer s len = (False, s') \<Longrightarrow> same_line s s'"
  by (cases "heap s")
     (auto simp: tinyrl_extend_line_buffer_def realloc_def alloc_def Let_def tinyrl_ding_def
        tinyrl_printf_def same_line_def split: if_splits option.splits prod.splits)

lemma extend_invariant:
  assumes inv: "line_invariant s" and lb: "line s = Line_buffer"
      and r: "tinyrl_extend_line_buffer s len = (ok, s')"
  shows "line_invariant s' \<and> line s' = Line_buffer \<and> point s' = point s
       \<and> rl_end s' = rl_end s \<and> (ok \<longrightarrow> unat len \<le> buffer_size s')"
proof (cases ok)
  case False
  with r have sl: "same_line s s'" by (simp add: extend_fails_same_line)
  from same_line_invariant [OF sl inv] sl lb False show ?thesis by (simp add: same_line_def)
next
  case True
  show ?thesis
  proof (cases "buffer_size s < unat len")
    case False
    with r True inv lb show ?thesis by (simp add: tinyrl_extend_line_buffer_def)
  next
    case lt: True
    from line_invariant_bufferD [OF inv lb] obtain b where
      b: "buffer s = Some b" "buffer_size s < length b" "unat (rl_end s) \<le> buffer_size s"
         "b ! unat (rl_end s) = NUL"
      and pe: "point s \<le> rl_end s"
      by blast
    have r': "tinyrl_extend_line_buffer s len = (True, s')" using r True by simp
    from extend_line_buffer_grows [OF r' lt] b(1) obtain c n where
      g: "unat len < n" "buffer s' = Some (take n (b @ replicate n c))"
         "buffer_size s' = n - 1" "line s' = Line_buffer" "point s' = point s"
         "rl_end s' = rl_end s"
      by auto
    have e: "unat (rl_end s) < n" "unat (rl_end s) < length b" using b(2,3) lt g(1) by simp_all
    have "take n (b @ replicate n c) ! unat (rl_end s) = NUL"
      using e b(4) by (simp add: nth_append)
    hence "line_invariant s'"
      using g pe b lt by (intro line_invariant_bufferI [OF _ g(2)]) simp_all
    moreover have "unat len \<le> n - 1" using g(1) by simp
    ultimately show ?thesis using g(3-6) by simp
  qed
qed

lemma insert_copy_invariant:
  assumes inv: "line_invariant s" and lb: "line s = Line_buffer"
      and room: "unat (rl_end s) + unat delta \<le> buffer_size s"
      and nw: "unat (rl_end s) + unat delta < 2 ^ 32"
      and r: "insert_copy s t delta = Some (ok, s')"
  shows "line_invariant s'"
proof -
  from line_invariant_bufferD [OF inv lb] obtain b where
    b: "buffer s = Some b" "buffer_size s < length b" "unat (rl_end s) \<le> buffer_size s"
       "b ! unat (rl_end s) = NUL"
    and pe: "point s \<le> rl_end s"
    by blast
  define e p d where "e = unat (rl_end s)" and "p = unat (point s)" and "d = unat delta"
  have pe': "p \<le> e" using pe by (simp add: e_def p_def word_le_nat_alt)
  have ue: "unat (rl_end s + delta) = e + d"
    using nw unat_add_lem [of "rl_end s" delta] by (simp add: e_def d_def)
  have "p + d < 2 ^ 32" using pe' nw by (simp add: e_def d_def)
  hence up: "unat (point s + delta) = p + d"
    using unat_add_lem [of "point s" delta] by (simp add: p_def d_def)
  have ed: "e + d < length b" using room b(2) by (simp add: e_def d_def)
  from r b(1) obtain b1 b2 where
    b1': "(if point s < rl_end s
          then memmove b (unat (point s + delta)) (unat (point s))
                 (unat (rl_end s - point s + 1))
          else store b (unat (rl_end s + delta)) NUL) = Some b1"
    and b2': "strncpy b1 (unat (point s)) t (unat delta) = Some b2"
    and s': "s' = s\<lparr>buffer := Some b2, point := point s + delta, rl_end := rl_end s + delta\<rparr>"
    by (auto simp: insert_copy_def split: Option.bind_splits)
  have b1: "(if point s < rl_end s
          then memmove b (p + d) p (unat (rl_end s - point s + 1))
          else store b (e + d) NUL) = Some b1"
    using b1' by (simp only: up ue p_def [symmetric])
  have b2: "strncpy b1 p t d = Some b2"
    using b2' by (simp only: p_def [symmetric] d_def [symmetric])
  have n1: "b1 ! (e + d) = NUL \<and> length b1 = length b"
  proof (cases "point s < rl_end s")
    case False
    with b1 ed show ?thesis by (auto simp: store_def)
  next
    case True
    hence plt: "p < e" by (simp add: p_def e_def word_less_nat_alt)
    have mm: "memmove b (p + d) p (unat (rl_end s - point s + 1)) = Some b1"
      using b1 True by simp
    have sub: "unat (rl_end s - point s) = e - p"
      using pe by (simp add: unat_sub e_def p_def)
    show ?thesis
    proof (cases "d = 0")
      case True
      have "unat (rl_end s - point s + 1) \<le> e - p + 1"
        using sub unat_succ_le [of "rl_end s - point s"] by simp
      hence "p + unat (rl_end s - point s + 1) \<le> length b" using ed plt by simp
      from memmove_same [OF this] mm True have "b1 = b" by simp
      thus ?thesis using b(4) True by (simp add: e_def)
    next
      case False
      hence "e + 1 < 2 ^ 32" using nw by (simp add: e_def d_def)
      hence "unat (rl_end s - point s) + unat (1 :: 32 word) < 2 ^ 32" using sub by simp
      hence k: "unat (rl_end s - point s + 1) = Suc e - p"
        using unat_add_lem [of "rl_end s - point s" 1] sub plt by simp
      have "e - p < Suc e - p" using plt by simp
      from memmove_nth_moved [OF mm [unfolded k] this]
      have "b1 ! (e + d) = b ! e" using plt by (simp add: add.commute)
      thus ?thesis using b(4) memmove_length [OF mm] by (simp add: e_def)
    qed
  qed
  have "p + d \<le> e + d" using pe' by simp
  from strncpy_nth_after [OF b2 this] n1 have n2: "b2 ! (e + d) = NUL" by simp
  have l2: "length b2 = length b" using strncpy_length [OF b2] n1 by simp
  have "point s + delta \<le> rl_end s + delta"
    using pe' by (simp add: word_le_nat_alt up ue)
  thus ?thesis
    using n2 l2 lb b(2) room ue
    by (intro line_invariant_bufferI [of _ b2]) (simp_all add: s' e_def d_def)
qed

lemma insert_text_len_invariant:
  assumes inv: "line_invariant s" and nw: "unat (rl_end s) + unat delta < 2 ^ 32"
      and r: "tinyrl_insert_text_len s t delta = Some (ok, s')"
  shows "line_invariant s'"
proof -
  from r obtain s1 where cl: "changed_line s = Some s1"
    by (auto simp: tinyrl_insert_text_len_def split: option.splits)
  from changed_line_invariant [OF inv cl]
  have s1: "line_invariant s1" "line s1 = Line_buffer" "rl_end s1 = rl_end s" by simp_all
  have sum: "unat (delta + rl_end s1) = unat (rl_end s1) + unat delta"
    using nw s1(3) unat_add_lem [of delta "rl_end s"] by simp
  have comm: "rl_end s1 + delta = delta + rl_end s1" by simp
  show ?thesis
  proof (cases "buffer_size s1 < unat (delta + rl_end s1)")
    case False
    with r cl have ic: "insert_copy s1 t delta = Some (ok, s')"
      by (simp add: tinyrl_insert_text_len_def)
    have "unat (rl_end s1) + unat delta \<le> buffer_size s1" using False sum by simp
    from insert_copy_invariant [OF s1(1,2) this _ ic] nw s1(3) show ?thesis by simp
  next
    case True
    obtain ok2 s2 where ex: "tinyrl_extend_line_buffer s1 (rl_end s1 + delta) = (ok2, s2)"
      by (cases "tinyrl_extend_line_buffer s1 (rl_end s1 + delta)")
    from extend_invariant [OF s1(1,2) ex]
    have s2: "line_invariant s2" "line s2 = Line_buffer" "rl_end s2 = rl_end s1"
         "ok2 \<longrightarrow> unat (rl_end s1 + delta) \<le> buffer_size s2"
      by simp_all
    show ?thesis
    proof (cases ok2)
      case False
      with r cl True ex have "s' = s2" by (simp add: tinyrl_insert_text_len_def)
      thus ?thesis using s2(1) by simp
    next
      case ok: True
      with r cl True ex have ic: "insert_copy s2 t delta = Some (ok, s')"
        by (simp add: tinyrl_insert_text_len_def)
      have "unat (rl_end s2) + unat delta \<le> buffer_size s2"
        using s2(3,4) ok sum by (simp add: comm)
      from insert_copy_invariant [OF s2(1,2) this _ ic] nw s1(3) s2(3) show ?thesis by simp
    qed
  qed
qed

lemma insert_text_invariant:
  assumes inv: "line_invariant s" and nw: "unat (rl_end s) + strlen t < 2 ^ 32"
      and r: "tinyrl_insert_text s t = Some (ok, s')"
  shows "line_invariant s'"
proof -
  have "strlen t < 2 ^ 32" using nw by simp
  hence "unat (of_nat (strlen t) :: 32 word) = strlen t" by (simp add: unat_of_nat)
  with nw have "unat (rl_end s) + unat (of_nat (strlen t) :: 32 word) < 2 ^ 32" by simp
  from insert_text_len_invariant [OF inv this] r show ?thesis
    by (simp add: tinyrl_insert_text_def)
qed

lemma delete_text_invariant:
  assumes inv: "line_invariant s" and ab: "a \<le> b" and be: "b \<le> rl_end s"
      and r: "tinyrl_delete_text s a b = Some s'"
  shows "line_invariant s'"
proof (cases "b = a")
  case True
  with r inv show ?thesis by (simp add: tinyrl_delete_text_def)
next
  case False
  from r False obtain s1 B b1 where
    cl: "changed_line s = Some s1" and B: "buffer s1 = Some B"
    and mm': "memmove B (unat a) (unat (a + (b - a))) (unat (rl_end s1 + 1 - b)) = Some b1"
    and s': "s' = (if b < point s1 then s1\<lparr>buffer := Some b1, rl_end := rl_end s1 - (b - a),
                                           point := point s1 - (b - a)\<rparr>
                  else if a < point s1 then s1\<lparr>buffer := Some b1,
                                                rl_end := rl_end s1 - (b - a), point := a\<rparr>
                  else s1\<lparr>buffer := Some b1, rl_end := rl_end s1 - (b - a)\<rparr>)"
    by (auto simp: tinyrl_delete_text_def Let_def split: Option.bind_splits if_splits)
  from changed_line_invariant [OF inv cl]
  have s1: "line_invariant s1" "line s1 = Line_buffer" "point s1 = point s"
       "rl_end s1 = rl_end s"
    by simp_all
  from line_invariant_bufferD [OF s1(1,2)] B
  have b: "buffer_size s1 < length B" "unat (rl_end s1) \<le> buffer_size s1"
       "B ! unat (rl_end s1) = NUL"
    and pe: "point s1 \<le> rl_end s1"
    by auto
  define e p ua ub where "e = unat (rl_end s1)" and "p = unat (point s1)"
    and "ua = unat a" and "ub = unat b"
  have "a < b" using ab False by simp
  hence le: "ua < ub" "ub \<le> e" "p \<le> e"
    using be pe s1(4)
    by (simp_all add: e_def p_def ua_def ub_def word_le_nat_alt word_less_nat_alt)
  have b0: "b \<noteq> 0" using le(1) by (auto simp: ub_def)
  have be1: "b \<le> rl_end s1" using be s1(4) by simp
  have cnt: "unat (rl_end s1 + 1 - b) = e + 1 - ub"
    using unat_succ_sub [OF be1 b0] by (simp add: e_def ub_def)
  have src: "unat (a + (b - a)) = ub" by (simp add: ub_def)
  have ud: "unat (b - a) = ub - ua" using ab by (simp add: unat_sub ua_def ub_def)
  have dle: "b - a \<le> rl_end s1" using le ud by (simp add: word_le_nat_alt e_def)
  have ue: "unat (rl_end s1 - (b - a)) = e - (ub - ua)"
    using unat_sub [OF dle] ud by (simp add: e_def)
  have mm: "memmove B ua ub (e + 1 - ub) = Some b1"
    using mm' by (simp only: cnt src ua_def [symmetric])
  have "e - ub < e + 1 - ub" using le by simp
  from memmove_nth_moved [OF mm this] have "b1 ! (ua + (e - ub)) = B ! e" using le by simp
  moreover have "ua + (e - ub) = e - (ub - ua)" using le by simp
  ultimately have nul: "b1 ! (e - (ub - ua)) = NUL" using b(3) by (simp add: e_def)
  have len: "length b1 = length B" using mm by (rule memmove_length)
  have fit: "e - (ub - ua) \<le> buffer_size s1" using b(2) by (simp add: e_def)
  show ?thesis
  proof (cases "b < point s1")
    case True
    hence bp: "ub < p" by (simp add: ub_def p_def word_less_nat_alt)
    hence "b - a \<le> point s1" using ud by (simp add: word_le_nat_alt p_def)
    from unat_sub [OF this] ud have "unat (point s1 - (b - a)) = p - (ub - ua)"
      by (simp add: p_def)
    hence "point s1 - (b - a) \<le> rl_end s1 - (b - a)"
      using ue le by (simp add: word_le_nat_alt)
    thus ?thesis
      using True s' nul len fit b(1) s1(2) ue
      by (intro line_invariant_bufferI [of _ b1]) simp_all
  next
    case nb: False
    show ?thesis
    proof (cases "a < point s1")
      case True
      have "a \<le> rl_end s1 - (b - a)" using ue le by (simp add: word_le_nat_alt ua_def)
      thus ?thesis
        using True nb s' nul len fit b(1) s1(2) ue
        by (intro line_invariant_bufferI [of _ b1]) simp_all
    next
      case False
      hence "p \<le> ua" by (simp add: p_def ua_def word_less_nat_alt)
      hence "point s1 \<le> rl_end s1 - (b - a)"
        using ue le by (simp add: word_le_nat_alt p_def)
      thus ?thesis
        using False nb s' nul len fit b(1) s1(2) ue
        by (intro line_invariant_bufferI [of _ b1]) simp_all
    qed
  qed
qed

lemma set_line_invariant:
  assumes inv: "line_invariant s"
      and short: "case text of None \<Rightarrow> True | Some t \<Rightarrow> strlen t < 2 ^ 32"
      and r: "tinyrl_set_line s text = Some s'"
  shows "line_invariant s'"
proof -
  from inv obtain b where b: "buffer s = Some b" "buffer_size s < length b"
    by (auto simp: line_invariant_def split: option.splits)
  note bs = buffer_string [OF inv b(1)]
  show ?thesis
  proof (cases "text")
    case (Some t)
    with short have "strlen t < 2 ^ 32" by simp
    hence u: "unat (of_nat (strlen t) :: 32 word) = strlen t" by (simp add: unat_of_nat)
    from r Some have "s' = s\<lparr>line := Line_text t, point := of_nat (strlen t),
                                rl_end := of_nat (strlen t)\<rparr>"
      by (simp add: tinyrl_set_line_def line_str_def strlen_def)
    thus ?thesis using b bs u by (simp add: line_invariant_def)
  next
    case None
    have "block_str b 0 = Some (c_str b)" using bs by (simp add: block_str_def)
    with r None b(1) have s': "s' = s\<lparr>line := Line_buffer, point := of_nat (strlen b),
                                rl_end := of_nat (strlen b)\<rparr>"
      by (simp add: tinyrl_set_line_def line_str_def strlen_def)
    have u: "unat (of_nat (strlen b) :: 32 word) = strlen b" using bs by (simp add: unat_of_nat)
    show ?thesis using b bs u by (simp add: line_invariant_def s')
  qed
qed

lemma redisplay_same_line:
  assumes r: "tinyrl_redisplay U s = Some s'"
  shows "same_line s s'"
proof -
  note d = tinyrl_redisplay_def Let_def
  obtain pr where pr: "prompt s = Some pr"
    by (cases "prompt s") (use r in \<open>auto simp: d\<close>)
  obtain prow pcol where
    pw: "tinyrl_string_wrap U (strdup pr) (strlen pr) (tinyrl__get_width s) 0 0
           = Some (prow, pcol)"
    by (cases "tinyrl_string_wrap U (strdup pr) (strlen pr) (tinyrl__get_width s) 0 0")
       (use r pr in \<open>auto simp: d\<close>)
  obtain bufp pt en s0 where
    ip: "tinyrl_internal_print U s = Some (bufp, pt, en, s0)"
    by (cases "tinyrl_internal_print U s") (use r pr pw in \<open>auto simp: d\<close>)
  from internal_print_frame [OF ip] have f0: "same_line s s0"
    by (auto simp: same_line_def)
  show ?thesis
  proof (cases bufp)
    case None
    with r pr pw ip have "s' = s0" by (simp add: d)
    thus ?thesis using f0 by simp
  next
    case (Some buf)
    with ip have ok: "alloc_ok s" by (simp add: internal_print_alloc_ok)
    from redisplay_result [OF r ok] ip Some obtain pr' prow' pcol' k s1 tail where
      er: "(case last_buffer s0 of
              Some lb \<Rightarrow> redisplay_erase U s0 (tinyrl__get_width s) prow' pcol' buf en lb
            | None \<Rightarrow> Some (0, tinyrl_printf s0 (c_str pr'))) = Some (k, s1)"
      and p: "prints (tinyrl_printf s1 tail) (s'\<lparr>last_buffer := last_buffer s1,
                last_end := last_end s1, last_row := last_row s1,
                last_point_row := last_point_row s1\<rparr>)"
      by auto
    have f1: "same_line s0 s1"
    proof (cases "last_buffer s0")
      case None
      with er have "s1 = tinyrl_printf s0 (c_str pr')" by simp
      thus ?thesis by (simp add: prints_same_line prints_printf)
    next
      case (Some lb)
      with er have "redisplay_erase U s0 (tinyrl__get_width s) prow' pcol' buf en lb
                      = Some (k, s1)"
        by simp
      from prints_trans [OF prints_printf redisplay_erase_output [OF this]]
      show ?thesis by (rule prints_same_line)
    qed
    have "same_line s1 (s'\<lparr>last_buffer := last_buffer s1,
                last_end := last_end s1, last_row := last_row s1,
                last_point_row := last_point_row s1\<rparr>)"
      using prints_trans [OF prints_printf p] by (rule prints_same_line)
    hence "same_line s1 s'" by (simp add: same_line_def)
    with f0 f1 show ?thesis by (blast intro: same_line_trans)
  qed
qed

lemma replace_line_invariant:
  assumes inv: "line_invariant s" and lb: "line s = Line_buffer"
      and short: "strlen t < 2 ^ 32"
      and r: "tinyrl_replace_line U s t = Some s'"
  shows "line_invariant s'"
proof -
  have u: "unat (of_nat (strlen t) :: 32 word) = strlen t"
    using short by (simp add: unat_of_nat)
  obtain ok s1 where ex: "tinyrl_extend_line_buffer s (of_nat (strlen t)) = (ok, s1)"
    by (cases "tinyrl_extend_line_buffer s (of_nat (strlen t))")
  from extend_invariant [OF inv lb ex] u
  have s1: "line_invariant s1" "line s1 = Line_buffer" "ok \<longrightarrow> strlen t \<le> buffer_size s1"
    by simp_all
  show ?thesis
  proof (cases ok)
    case False
    with r ex have "tinyrl_redisplay U s1 = Some s'"
      by (simp add: tinyrl_replace_line_def)
    from same_line_invariant [OF redisplay_same_line [OF this] s1(1)] show ?thesis .
  next
    case True
    from line_invariant_bufferD(1) [OF s1(1,2)] obtain b where
      b: "buffer s1 = Some b" "buffer_size s1 < length b"
      by blast
    have room: "strlen t + 1 \<le> length b" using s1(3) True b(2) by simp
    define b1 where "b1 = strdup t @ drop (strlen t + 1) b"
    have sc: "strcpy b t = Some b1" using room by (simp add: strcpy_def b1_def)
    have rd: "tinyrl_redisplay U (s1\<lparr>buffer := Some b1, point := of_nat (strlen t),
                                    rl_end := of_nat (strlen t)\<rparr>) = Some s'"
      using r ex True b(1) sc by (simp add: tinyrl_replace_line_def Let_def)
    have l1: "length b1 = length b" using room by (simp add: b1_def strdup_def strlen_def)
    have "b1 ! strlen t = NUL" by (simp add: b1_def strdup_def strlen_def nth_append)
    hence "line_invariant (s1\<lparr>buffer := Some b1, point := of_nat (strlen t),
                                    rl_end := of_nat (strlen t)\<rparr>)"
      using l1 b(2) s1(2,3) True u by (intro line_invariant_bufferI [of _ b1]) simp_all
    from same_line_invariant [OF redisplay_same_line [OF rd] this] show ?thesis .
  qed
qed

lemma line_invariant_point:
  "line_invariant s \<Longrightarrow> p \<le> rl_end s \<Longrightarrow> line_invariant (s\<lparr>point := p\<rparr>)"
  by (auto simp: line_invariant_def split: option.splits line_ptr.splits)

lemma unat_of_nat_le:
  fixes w :: "32 word"
  assumes "n \<le> unat w"
  shows "unat (of_nat n :: 32 word) = n"
proof -
  have "unat w < 2 ^ 32" using unsigned_less [of w] by simp
  with assms have "n < 2 ^ 32" by simp
  thus ?thesis by (simp add: unat_of_nat)
qed

lemma public_same_line:
  "same_line s (tinyrl_printf s out)" "same_line s (tinyrl_crlf s)"
  "same_line s (tinyrl_ding s)" "same_line s (tinyrl_done s)"
  "same_line s (tinyrl_enable_echo s)" "same_line s (tinyrl_disable_echo s c)"
  "same_line s (tinyrl_limit_line_length s n)" "same_line s (tinyrl_bind_key s k f)"
  by (simp_all add: same_line_def tinyrl_printf_def tinyrl_crlf_def tinyrl_ding_def
      tinyrl_done_def tinyrl_enable_echo_def tinyrl_disable_echo_def
      tinyrl_limit_line_length_def tinyrl_bind_key_def)

lemma key_invariant:
  assumes inv: "line_invariant s" and nav: "boundaries_ok U"
      and nw: "unat (rl_end s) + strlen key
                 + (case kill_string s of None \<Rightarrow> 0 | Some k \<Rightarrow> strlen k) < 2 ^ 32"
      and r: "call_key_func U h s key = Some (ok, s')"
  shows "line_invariant s'"
proof -
  have pe: "point s \<le> rl_end s" using inv by (simp add: line_invariant_def)
  hence pe': "unat (point s) \<le> unat (rl_end s)" by (simp add: word_le_nat_alt)
  show ?thesis
  proof (cases h)
    case Key_default
    with r have i: "tinyrl_insert_text s key = Some (ok, s')"
      by (simp add: tinyrl_key_default_def)
    have "unat (rl_end s) + strlen key < 2 ^ 32" using nw by simp
    from insert_text_invariant [OF inv this i] show ?thesis .
  next
    case Key_interrupt
    with r obtain s1 where
      d: "tinyrl_delete_text s 0 (rl_end s) = Some s1" and s': "s' = s1\<lparr>rl_done := True\<rparr>"
      by (auto simp: tinyrl_key_interrupt_def split: Option.bind_splits)
    have "line_invariant s1" using inv _ _ d by (rule delete_text_invariant) simp_all
    thus ?thesis
      by (rule same_line_invariant [rotated]) (simp add: s' same_line_def)
  next
    case Key_start_of_line
    with r have "s' = s\<lparr>point := 0\<rparr>" by (simp add: tinyrl_key_start_of_line_def)
    thus ?thesis using line_invariant_point [OF inv, of 0] by simp
  next
    case Key_end_of_line
    with r have "s' = s\<lparr>point := rl_end s\<rparr>" by (simp add: tinyrl_key_end_of_line_def)
    thus ?thesis using line_invariant_point [OF inv, of "rl_end s"] by simp
  next
    case Key_kill
    with r obtain ar s1 where
      a: "alloc s = (ar, s1)"
      and d: "tinyrl_delete_text (s1\<lparr>kill_string := (case ar of None \<Rightarrow> None
                | Some c \<Rightarrow> block_str (the (buffer s)) (unat (point s)))\<rparr>)
                (point s1) (rl_end s1) = Some s'"
      by (cases "alloc s")
         (auto simp: tinyrl_key_kill_def Let_def split: Option.bind_splits option.splits)
    let ?s2 = "s1\<lparr>kill_string := (case ar of None \<Rightarrow> None
                | Some c \<Rightarrow> block_str (the (buffer s)) (unat (point s)))\<rparr>"
    have sl: "same_line s ?s2" using alloc_same_line [OF a] by (simp add: same_line_def)
    have i2: "line_invariant ?s2" using sl inv by (rule same_line_invariant)
    have ab: "point s1 \<le> rl_end s1" using sl pe by (simp add: same_line_def)
    have be: "rl_end s1 \<le> rl_end ?s2" by simp
    from delete_text_invariant [OF i2 ab be d] show ?thesis .
  next
    case Key_yank
    show ?thesis
    proof (cases "kill_string s")
      case None
      with r Key_yank inv show ?thesis by (simp add: tinyrl_key_yank_def)
    next
      case (Some k)
      with r Key_yank have i: "tinyrl_insert_text s k = Some (ok, s')"
        by (simp add: tinyrl_key_yank_def)
      have "unat (rl_end s) + strlen k < 2 ^ 32" using nw Some by simp
      from insert_text_invariant [OF inv this i] show ?thesis .
    qed
  next
    case Key_crlf
    with r have "s' = (tinyrl_crlf s)\<lparr>rl_done := True\<rparr>" by (simp add: tinyrl_key_crlf_def)
    hence "same_line s s'"
      by (simp add: same_line_def tinyrl_crlf_def tinyrl_printf_def)
    thus ?thesis using inv by (rule same_line_invariant)
  next
    case Key_left
    show ?thesis
    proof (cases "0 < point s")
      case False
      with r Key_left inv show ?thesis by (simp add: tinyrl_key_left_def)
    next
      case True
      with r Key_left obtain m where
        s': "s' = s\<lparr>point := of_nat (utf8_grapheme_prev U m (unat (rl_end s))
                                       (unat (point s)))\<rparr>"
        by (auto simp: tinyrl_key_left_def split: Option.bind_splits)
      define n where "n = utf8_grapheme_prev U m (unat (rl_end s)) (unat (point s))"
      have "n \<le> unat (point s)" using nav by (simp add: boundaries_ok_def n_def)
      with unat_of_nat_le [OF this] pe' have "(of_nat n :: 32 word) \<le> rl_end s"
        by (simp add: word_le_nat_alt)
      from line_invariant_point [OF inv this] show ?thesis by (simp add: s' n_def)
    qed
  next
    case Key_right
    show ?thesis
    proof (cases "point s < rl_end s")
      case False
      with r Key_right inv show ?thesis by (simp add: tinyrl_key_right_def)
    next
      case True
      with r Key_right obtain m where
        s': "s' = s\<lparr>point := of_nat (utf8_grapheme_next U m (unat (rl_end s))
                                       (unat (point s)))\<rparr>"
        by (auto simp: tinyrl_key_right_def split: Option.bind_splits)
      define n where "n = utf8_grapheme_next U m (unat (rl_end s)) (unat (point s))"
      have "unat (point s) < unat (rl_end s)" using True by (simp add: word_less_nat_alt)
      hence "n \<le> unat (rl_end s)" using nav by (simp add: boundaries_ok_def n_def)
      with unat_of_nat_le [OF this] have "(of_nat n :: 32 word) \<le> rl_end s"
        by (simp add: word_le_nat_alt)
      from line_invariant_point [OF inv this] show ?thesis by (simp add: s' n_def)
    qed
  next
    case Key_backspace
    show ?thesis
    proof (cases "point s \<noteq> 0")
      case False
      with r Key_backspace inv show ?thesis by (simp add: tinyrl_key_backspace_def)
    next
      case True
      with r Key_backspace obtain m where
        d: "tinyrl_delete_text
              (s\<lparr>point := of_nat (utf8_char_prev U m (unat (rl_end s)) (unat (point s)))\<rparr>)
              (of_nat (utf8_char_prev U m (unat (rl_end s)) (unat (point s)))) (point s)
            = Some s'"
        by (auto simp: tinyrl_key_backspace_def Let_def split: Option.bind_splits)
      define n where "n = utf8_char_prev U m (unat (rl_end s)) (unat (point s))"
      have le: "n \<le> unat (point s)" using nav by (simp add: boundaries_ok_def n_def)
      with unat_of_nat_le [OF this] have ab: "(of_nat n :: 32 word) \<le> point s"
        by (simp add: word_le_nat_alt)
      hence "(of_nat n :: 32 word) \<le> rl_end s" using pe by simp
      from line_invariant_point [OF inv this]
      have i1: "line_invariant (s\<lparr>point := of_nat n\<rparr>)" .
      have be: "point s \<le> rl_end (s\<lparr>point := of_nat n\<rparr>)" using pe by simp
      from delete_text_invariant [OF i1 ab be] d show ?thesis by (simp add: n_def)
    qed
  next
    case Key_delete
    show ?thesis
    proof (cases "point s < rl_end s")
      case False
      with r Key_delete inv show ?thesis by (simp add: tinyrl_key_delete_def)
    next
      case True
      with r Key_delete obtain m where
        d: "tinyrl_delete_text s (point s)
              (of_nat (utf8_grapheme_next U m (unat (rl_end s)) (unat (point s)))) = Some s'"
        by (auto simp: tinyrl_key_delete_def Let_def split: Option.bind_splits)
      define n where "n = utf8_grapheme_next U m (unat (rl_end s)) (unat (point s))"
      have "unat (point s) < unat (rl_end s)" using True by (simp add: word_less_nat_alt)
      hence "unat (point s) < n \<and> n \<le> unat (rl_end s)"
        using nav by (simp add: boundaries_ok_def n_def)
      hence n: "unat (point s) \<le> n" "n \<le> unat (rl_end s)" by simp_all
      from unat_of_nat_le [OF n(2)] n
      have "point s \<le> (of_nat n :: 32 word)" "(of_nat n :: 32 word) \<le> rl_end s"
        by (simp_all add: word_le_nat_alt)
      from delete_text_invariant [OF inv this] d show ?thesis by (simp add: n_def)
    qed
  next
    case Key_clear_screen
    with r have rd: "tinyrl_redisplay U
                  ((tinyrl_vt100_cursor_home (tinyrl_vt100_clear_screen s))
                     \<lparr>last_buffer := None\<rparr>) = Some s'"
      by (auto simp: tinyrl_key_clear_screen_def tinyrl_reset_line_state_def
               split: Option.bind_splits)
    have "same_line s ((tinyrl_vt100_cursor_home (tinyrl_vt100_clear_screen s))
                     \<lparr>last_buffer := None\<rparr>)"
      by (simp add: same_line_def tinyrl_vt100_cursor_home_def tinyrl_vt100_clear_screen_def
          tinyrl_printf_def)
    from same_line_trans [OF this redisplay_same_line [OF rd]] inv show ?thesis
      by (rule same_line_invariant)
  next
    case Key_erase_line
    with r obtain s1 where
      d: "tinyrl_delete_text s 0 (point s) = Some s1" and s': "s' = s1\<lparr>point := 0\<rparr>"
      by (auto simp: tinyrl_key_erase_line_def split: Option.bind_splits)
    have "line_invariant s1" using inv _ pe d by (rule delete_text_invariant) simp
    from line_invariant_point [OF this, of 0] show ?thesis by (simp add: s')
  qed
qed

text \<open>
  C3, as the code has it.  Let the UTF-8 helpers return boundaries inside the line.  In
  every state of a session between the prologue of \<open>tinyrl_readline\<close> and its epilogue,
  that is after the prologue and any sequence of \<open>tinyrl_insert_text\<close>,
  \<open>tinyrl_insert_text_len\<close>, \<open>tinyrl_delete_text\<close>, \<open>tinyrl_set_line\<close>,
  \<open>tinyrl_replace_line\<close>, \<open>tinyrl_redisplay\<close>, the built-in key handlers and the other
  public functions, \<open>0 \<le> point \<le> end\<close> holds and the buffer is allocated with more than
  \<open>buffer_size\<close> bytes.  Whenever \<open>line\<close> is the buffer, \<open>end \<le> buffer_size\<close> and
  \<open>buffer[end] == 0\<close>.  While \<open>line\<close> is a string of the caller, as after \<open>tinyrl_set_line\<close>
  with such a string, \<open>end\<close> is the length of that string, whatever \<open>buffer_size\<close> is.
\<close>

theorem line_invariant_reachable:
  assumes "boundaries_ok U" "reachable U s"
  shows "line_invariant s \<and> point s \<le> rl_end s
       \<and> (line s = Line_buffer \<longrightarrow>
            (\<exists>b. buffer s = Some b \<and> buffer_size s < length b
               \<and> unat (rl_end s) \<le> buffer_size s \<and> b ! unat (rl_end s) = NUL))
       \<and> (\<forall>t. line s = Line_text t \<longrightarrow> unat (rl_end s) = strlen t)"
proof -
  from assms(2) have inv: "line_invariant s"
  proof induction
    case (readline_begin s c s' p)
    show ?case
      by (rule line_invariant_bufferI [of _ "[NUL]"])
         (simp_all add: strdup_def strlen_def c_str_def)
  next
    case (insert_text_len s delta t ok s')
    from insert_text_len_invariant [OF insert_text_len.IH insert_text_len.hyps(2,3)]
    show ?case .
  next
    case (insert_text s t ok s')
    from insert_text_invariant [OF insert_text.IH insert_text.hyps(2,3)] show ?case .
  next
    case (delete_text s start end_arg s')
    from delete_text_invariant [OF delete_text.IH delete_text.hyps(2,3,4)] show ?case .
  next
    case (set_line s t s')
    from set_line_invariant [OF set_line.IH set_line.hyps(2,3)] show ?case .
  next
    case (replace_line s t s')
    from replace_line_invariant [OF replace_line.IH replace_line.hyps(2,3,4)] show ?case .
  next
    case (redisplay s s')
    from same_line_invariant [OF redisplay_same_line [OF redisplay.hyps(2)] redisplay.IH]
    show ?case .
  next
    case (reset_line_state s s')
    hence rd: "tinyrl_redisplay U (s\<lparr>last_buffer := None\<rparr>) = Some s'"
      by (simp add: tinyrl_reset_line_state_def)
    have "same_line s (s\<lparr>last_buffer := None\<rparr>)" by (simp add: same_line_def)
    from same_line_trans [OF this redisplay_same_line [OF rd]] reset_line_state.IH
    show ?case by (rule same_line_invariant)
  next
    case (key s key h ok s')
    from key_invariant [OF key.IH assms(1) key.hyps(2,3)] show ?case .
  next
    case (printf s out)
    from same_line_invariant [OF public_same_line(1) printf.IH] show ?case .
  next
    case (crlf s)
    from same_line_invariant [OF public_same_line(2) crlf.IH] show ?case .
  next
    case (ding s)
    from same_line_invariant [OF public_same_line(3) ding.IH] show ?case .
  next
    case (set_done s)
    from same_line_invariant [OF public_same_line(4) set_done.IH] show ?case .
  next
    case (enable_echo s)
    from same_line_invariant [OF public_same_line(5) enable_echo.IH] show ?case .
  next
    case (disable_echo s c)
    from same_line_invariant [OF public_same_line(6) disable_echo.IH] show ?case .
  next
    case (limit_line_length s n)
    from same_line_invariant [OF public_same_line(7) limit_line_length.IH] show ?case .
  next
    case (bind_key s k f)
    from same_line_invariant [OF public_same_line(8) bind_key.IH] show ?case .
  next
    case (bind_special s sk f)
    hence "same_line s (tinyrl_bind_special s sk f)"
      by (cases sk) (auto simp: same_line_def tinyrl_bind_keyseq_def split: list.splits)
    thus ?case using bind_special.IH by (rule same_line_invariant)
  qed
  thus ?thesis by (auto simp: line_invariant_def split: option.splits)
qed

lemma begun_reachable: "reachable U begun"
proof -
  have "alloc cleared = (Some NUL, cleared)" by (simp add: alloc_def cleared_def)
  from reachable.readline_begin [OF this, of U "Some ''> ''"] show ?thesis
    by (simp add: begun_def)
qed

theorem line_invariant_reachable_witness:
  "boundaries_ok ascii
   \<and> (\<exists>s'. tinyrl_insert_text begun ''hi'' = Some (True, s') \<and> reachable ascii s'
          \<and> line_invariant s' \<and> point s' = 2 \<and> rl_end s' = 2 \<and> line s' = Line_buffer
          \<and> buffer_size s' = 10
          \<and> (\<exists>b. buffer s' = Some b \<and> buffer_size s' < length b
                \<and> unat (rl_end s') \<le> buffer_size s' \<and> b ! unat (rl_end s') = NUL))"
proof -
  have adv: "boundaries_ok ascii" by (simp add: boundaries_ok_def ascii_simps)
  obtain s' where
    i: "tinyrl_insert_text begun ''hi'' = Some (True, s')" and
    v: "point s' = 2" "rl_end s' = 2" "line s' = Line_buffer" "buffer_size s' = 10"
    by (simp add: tinyrl_insert_text_def tinyrl_insert_text_len_def changed_line_def
        line_is_buffer_def line_str_def begun_def cleared_def alloc_def strlen_def c_str_def
        strdup_def tinyrl_extend_line_buffer_def realloc_def insert_copy_def store_def
        strncpy_def memmove_def)
  have nw: "unat (rl_end begun) + strlen ''hi'' < 2 ^ 32"
    by (simp add: begun_def cleared_def strlen_def c_str_def)
  note r = reachable.insert_text [OF begun_reachable nw i]
  from line_invariant_reachable [OF adv r] v i r adv show ?thesis by simp
qed

text \<open>
  The claim as stated fails after \<open>tinyrl_set_line\<close> with a string of the caller: in the
  session that the prologue of \<open>tinyrl_readline\<close> sets up, the buffer is one byte and
  \<open>buffer_size\<close> is 0; \<open>tinyrl_set_line(this, "hello")\<close> makes \<open>end\<close> 5, which is greater than
  \<open>buffer_size\<close>, and leaves the buffer at its one byte, so that \<open>buffer[end]\<close> lies outside
  it.
\<close>

theorem line_invariant_counterexample:
  "reachable ascii begun
   \<and> tinyrl_set_line begun (Some ''hello'')
       = Some (begun\<lparr>line := Line_text ''hello'', point := 5, rl_end := 5\<rparr>)
   \<and> reachable ascii (begun\<lparr>line := Line_text ''hello'', point := 5, rl_end := 5\<rparr>)
   \<and> rl_end (begun\<lparr>line := Line_text ''hello'', point := 5, rl_end := 5\<rparr>) = 5
   \<and> buffer_size (begun\<lparr>line := Line_text ''hello'', point := 5, rl_end := 5\<rparr>) = 0
   \<and> \<not> unat (rl_end (begun\<lparr>line := Line_text ''hello'', point := 5, rl_end := 5\<rparr>))
         \<le> buffer_size (begun\<lparr>line := Line_text ''hello'', point := 5, rl_end := 5\<rparr>)
   \<and> buffer (begun\<lparr>line := Line_text ''hello'', point := 5, rl_end := 5\<rparr>) = Some [NUL]"
proof -
  have sl: "tinyrl_set_line begun (Some ''hello'')
              = Some (begun\<lparr>line := Line_text ''hello'', point := 5, rl_end := 5\<rparr>)"
    by (simp add: tinyrl_set_line_def line_str_def c_str_def)
  have short: "case Some ''hello'' of None \<Rightarrow> True | Some t \<Rightarrow> strlen t < 2 ^ 32"
    by (simp add: strlen_def c_str_def)
  note r = reachable.set_line [OF begun_reachable short sl]
  have "buffer_size begun = 0" "buffer begun = Some [NUL]"
    by (simp_all add: begun_def cleared_def strdup_def strlen_def c_str_def)
  with sl r begun_reachable show ?thesis by simp
qed

end
